theory Spec2Isabelle
  imports Main "HOL-Library.AList" "HOL-Library.Char_ord" "HOL-Library.List_Lexorder"
    "HOL-Library.Multiset"
begin

section \<open>Python values used by the checks\<close>

text \<open>
  Strings are lists of bytes (UTF-8); with \<open>Char_ord\<close> and \<open>List_Lexorder\<close> the order
  on \<^typ>\<open>string\<close> is the lexicographic order on code units, which for UTF-8 is Python's
  order on \<open>str\<close>. A \<open>dict\<close> keeps insertion order, so it is an association list whose
  keys are distinct: storing under a present key replaces the value in place, storing
  under a new key appends.
\<close>

datatype py_error = TypeError | KeyError

type_synonym 'v dict = "(string \<times> 'v) list"

definition keys :: "'v dict \<Rightarrow> string list" where
  "keys d = map fst d"

definition dict_get :: "'v dict \<Rightarrow> string \<Rightarrow> py_error + 'v" where
  \<comment> \<open>\<open>d[k]\<close>\<close>
  "dict_get d k = (case map_of d k of None \<Rightarrow> Inl KeyError | Some v \<Rightarrow> Inr v)"

definition dict_set :: "string \<Rightarrow> 'v \<Rightarrow> 'v dict \<Rightarrow> 'v dict" where
  \<comment> \<open>\<open>d[k] = v\<close>\<close>
  "dict_set k v d = AList.update k v d"

definition strip :: "string \<Rightarrow> string \<Rightarrow> string" where
  \<comment> \<open>\<open>s.strip(chars)\<close>: drop leading and trailing characters that occur in \<open>chars\<close>\<close>
  "strip chars s =
     rev (dropWhile (\<lambda>c. c \<in> set chars) (rev (dropWhile (\<lambda>c. c \<in> set chars) s)))"

section \<open>The regular expression of the time bucket\<close>

text \<open>
  \<^verbatim>\<open>re.compile(r'(\d+:\d+).+').search(s)[1]\<close>. The matcher backtracks: a greedy
  \<open>X+\<close> first takes the longest run and then gives back one character at a time;
  \<open>search\<close> tries every start position from the left. \<open>.\<close> is any character but the
  line feed. \<open>\d\<close> is modelled as an ASCII digit: this is the pattern of the program on
  strings of ASCII characters. On a \<open>str\<close> Python's \<open>\d\<close> accepts the other decimal
  digits of Unicode as well, which UTF-8 writes with bytes from \<open>0x80\<close> on, so
  statements about the key of a time group are made for ASCII time groups.
\<close>

definition is_digit :: "char \<Rightarrow> bool" where
  "is_digit c = (CHR ''0'' \<le> c \<and> c \<le> CHR ''9'')"

definition is_ascii :: "char \<Rightarrow> bool" where
  "is_ascii c = (c < CHR 0x80)"

definition is_dot :: "char \<Rightarrow> bool" where
  "is_dot c = (c \<noteq> CHR 0x0A)"

fun first_some :: "('a \<Rightarrow> 'b option) \<Rightarrow> 'a list \<Rightarrow> 'b option" where
  "first_some f [] = None"
| "first_some f (x # xs) = (case f x of Some y \<Rightarrow> Some y | None \<Rightarrow> first_some f xs)"

definition greedy :: "(char \<Rightarrow> bool) \<Rightarrow> string \<Rightarrow> nat list" where
  \<comment> \<open>the lengths \<open>X+\<close> tries at the start of \<open>s\<close>, in the order it tries them\<close>
  "greedy X s = rev [1 ..< Suc (length (takeWhile X s))]"

definition match_at :: "string \<Rightarrow> string option" where
  \<comment> \<open>the pattern anchored at the start of \<open>s\<close>; the result is group 1\<close>
  "match_at s =
     first_some (\<lambda>i.
       case drop i s of
         [] \<Rightarrow> None
       | c # s1 \<Rightarrow>
           if c = CHR '':'' then
             first_some (\<lambda>j.
               if greedy is_dot (drop j s1) \<noteq> [] then Some (take i s @ '':'' @ take j s1)
               else None) (greedy is_digit s1)
           else None) (greedy is_digit s)"

fun search :: "string \<Rightarrow> string option" where
  "search [] = match_at []"
| "search (c # s) = (case match_at (c # s) of Some g \<Rightarrow> Some g | None \<Rightarrow> search s)"

section \<open>AgentExceptionCheckResults.\_tally\_results\<close>

text \<open>
  A search result carries the match groups the docstring names: 1 the date, 2 the time,
  3 the log entry (the exception name).
\<close>

record search_result =
  get1 :: string
  get2 :: string
  get3 :: string

type_synonym tally = "int dict dict"

definition bucket_key :: "string \<Rightarrow> search_result \<Rightarrow> py_error + string" where
  \<comment> \<open>lines 57-64; \<open>None[1]\<close> raises TypeError when the pattern is not found\<close>
  "bucket_key event_tally_granularity result =
     (let ts_date = get1 result in
      if event_tally_granularity = ''time'' then
        (case search (get2 result) of
           None \<Rightarrow> Inl TypeError
         | Some ts_time \<Rightarrow> Inr (ts_date @ ''_'' @ ts_time))
      else Inr ts_date)"

definition tally_step :: "string \<Rightarrow> tally \<Rightarrow> search_result \<Rightarrow> py_error + tally" where
  \<comment> \<open>the body of the loop, lines 52-69\<close>
  "tally_step event_tally_granularity exceptions result =
     (let exc_name = strip [CHR 0x27] (get3 result);
          exceptions1 = (if exc_name \<notin> set (keys exceptions)
                         then dict_set exc_name [] exceptions else exceptions)
      in case bucket_key event_tally_granularity result of
           Inl e \<Rightarrow> Inl e
         | Inr key \<Rightarrow>
             (case dict_get exceptions1 exc_name of
                Inl e \<Rightarrow> Inl e
              | Inr buckets \<Rightarrow>
                  (let buckets1 = (if key \<notin> set (keys buckets)
                                   then dict_set key 0 buckets else buckets)
                   in case dict_get buckets1 key of
                        Inl e \<Rightarrow> Inl e
                      | Inr n \<Rightarrow>
                          Inr (dict_set exc_name (dict_set key (n + 1) buckets1)
                                 exceptions1))))"

fun tally_loop :: "string \<Rightarrow> tally \<Rightarrow> search_result list \<Rightarrow> py_error + tally" where
  "tally_loop g exceptions [] = Inr exceptions"
| "tally_loop g exceptions (result # results) =
     (case tally_step g exceptions result of
        Inl e \<Rightarrow> Inl e
      | Inr exceptions' \<Rightarrow> tally_loop g exceptions' results)"

definition sort_buckets :: "int dict \<Rightarrow> int dict" where
  \<comment> \<open>lines 75-78: a new dict filled in the order of \<open>sorted(items, key=lambda x: x[0])\<close>\<close>
  "sort_buckets buckets =
     foldl (\<lambda>exceptions_sorted (k, v). dict_set k v exceptions_sorted) []
       (sort_key fst buckets)"

definition tally_results :: "string \<Rightarrow> search_result list \<Rightarrow> py_error + tally option" where
  \<comment> \<open>\<open>None\<close> is the bare \<open>return\<close> of line 72\<close>
  "tally_results g results =
     (case tally_loop g [] results of
        Inl e \<Rightarrow> Inl e
      | Inr exceptions \<Rightarrow>
          if exceptions = [] then Inr None
          else Inr (Some (map (\<lambda>(exc_type, buckets). (exc_type, sort_buckets buckets))
                            exceptions)))"

section \<open>Notions used to state what the tally computes\<close>

text \<open>
  These are not part of the program. \<open>bump\<close> is one iteration of the loop once the bucket
  key is known, \<open>occ\<close> counts the records of one event name and one bucket, and
  \<open>buckets_spec\<close> is the bucket map the sorted result must hold for an event name.
\<close>

definition exc_name_of :: "search_result \<Rightarrow> string" where
  "exc_name_of result = strip [CHR 0x27] (get3 result)"

definition buckets_of :: "tally \<Rightarrow> string \<Rightarrow> int dict" where
  "buckets_of t n = (case map_of t n of None \<Rightarrow> [] | Some b \<Rightarrow> b)"

definition count_in :: "int dict \<Rightarrow> string \<Rightarrow> int" where
  "count_in b k = (case map_of b k of None \<Rightarrow> 0 | Some c \<Rightarrow> c)"

definition bump :: "string \<Rightarrow> string \<Rightarrow> tally \<Rightarrow> tally" where
  "bump n k t =
     AList.update n (AList.update k (count_in (buckets_of t n) k + 1) (buckets_of t n)) t"

fun bump_all :: "(search_result \<Rightarrow> string) \<Rightarrow> tally \<Rightarrow> search_result list \<Rightarrow> tally" where
  "bump_all kf t [] = t"
| "bump_all kf t (r # rs) = bump_all kf (bump (exc_name_of r) (kf r) t) rs"

definition key_of :: "string \<Rightarrow> search_result \<Rightarrow> string" where
  "key_of g r = (case bucket_key g r of Inl e \<Rightarrow> [] | Inr k \<Rightarrow> k)"

definition occ :: "(search_result \<Rightarrow> string) \<Rightarrow> search_result list \<Rightarrow> string \<Rightarrow> string \<Rightarrow> nat" where
  "occ kf rs n k = length (filter (\<lambda>r. exc_name_of r = n \<and> kf r = k) rs)"

definition tallied :: "(search_result \<Rightarrow> string) \<Rightarrow> search_result list \<Rightarrow> tally \<Rightarrow> bool" where
  "tallied kf rs t \<longleftrightarrow>
     distinct (map fst t) \<and> fst ` set t = exc_name_of ` set rs \<and>
     (\<forall>n. distinct (map fst (buckets_of t n)) \<and>
          (\<forall>k. map_of (buckets_of t n) k = (if occ kf rs n k = 0 then None else Some (int (occ kf rs n k)))))"

definition buckets_spec :: "(search_result \<Rightarrow> string) \<Rightarrow> search_result list \<Rightarrow> string \<Rightarrow> int dict" where
  "buckets_spec kf rs n =
     map (\<lambda>k. (k, int (occ kf rs n k)))
       (sorted_list_of_set (kf ` {r \<in> set rs. exc_name_of r = n}))"

definition sorted_table :: "tally \<Rightarrow> tally" where
  "sorted_table t = map (\<lambda>(exc_type, buckets). (exc_type, sort_buckets buckets)) t"

text \<open>
  Three records of one agent, the third with its exception name in quotes: two on
  2022-02-04 and one on 2022-02-09.
\<close>

definition ex :: "search_result list" where
  "ex = [\<lparr>get1 = ''2022-02-09'', get2 = ''18:56:57.344'', get3 = ''MessagingTimeout''\<rparr>,
         \<lparr>get1 = ''2022-02-04'', get2 = ''11:01:02.100'', get3 = ''MessagingTimeout''\<rparr>,
         \<lparr>get1 = ''2022-02-04'', get2 = ''11:07:59.002'',
          get3 = [CHR 0x27] @ ''MessagingTimeout'' @ [CHR 0x27]\<rparr>]"

text \<open>
  The bucket keys of a table, event by event; their number, and the set of the distinct
  key strings. \<open>date_part\<close> is what precedes the last underscore of a key.
\<close>

definition bucket_keys :: "tally \<Rightarrow> string list" where
  "bucket_keys t = concat (map (\<lambda>(exc_type, buckets). keys buckets) t)"

definition date_part :: "string \<Rightarrow> string" where
  "date_part k = rev (tl (dropWhile (\<lambda>c. c \<noteq> CHR ''_'') (rev k)))"

definition n_buckets :: "tally option \<Rightarrow> nat" where
  "n_buckets res = (case res of None \<Rightarrow> 0 | Some t \<Rightarrow> length (bucket_keys t))"

definition distinct_bucket_keys :: "tally option \<Rightarrow> string set" where
  "distinct_bucket_keys res = (case res of None \<Rightarrow> {} | Some t \<Rightarrow> set (bucket_keys t))"

section \<open>NeutronAgentEventChecks.process\_results\<close>

text \<open>
  The class \<open>LogEventStats\<close> is not part of the sources at hand, so the two methods
  \<open>process_results\<close> calls on it are parameters: \<open>get_top_n_events_sorted\<close> and
  \<open>get_event_stats\<close>, each a function of the search results, the event name and the
  custom indices. The \<open>break\<close> of line 40 leaves the loop over the events of the section;
  the loop over the sections goes on.
\<close>

record search_result_indices =
  event_id_idx :: nat
  metadata_idx :: nat
  metadata_key :: string

record ('top, 'stats) event_info =
  top :: 'top
  stats :: 'stats

definition custom_idxs :: "string \<Rightarrow> search_result_indices option" where
  \<comment> \<open>lines 29-34\<close>
  "custom_idxs event =
     (if event = ''router-updates''
      then Some \<lparr>event_id_idx = 4, metadata_idx = 3, metadata_key = ''router''\<rparr>
      else None)"

type_synonym ('e, 'stats) agent_info = "('e list, 'stats) event_info dict dict"

fun events_loop ::
  "('r \<Rightarrow> string \<Rightarrow> search_result_indices option \<Rightarrow> nat \<Rightarrow> 'e list) \<Rightarrow>
   ('r \<Rightarrow> string \<Rightarrow> search_result_indices option \<Rightarrow> 'stats) \<Rightarrow>
   'r \<Rightarrow> string \<Rightarrow> ('e, 'stats) agent_info \<Rightarrow> string list \<Rightarrow> ('e, 'stats) agent_info" where
  "events_loop get_top_n_events_sorted get_event_stats results agent_name agent_info [] =
     agent_info"
| "events_loop get_top_n_events_sorted get_event_stats results agent_name agent_info
     (event # events) =
     (let sri = custom_idxs event;
          top5 = get_top_n_events_sorted results event sri 5
      in if top5 = [] then agent_info
         else
           (let info = \<lparr>top = top5, stats = get_event_stats results event sri\<rparr>;
                agent_info1 = (if agent_name \<notin> set (keys agent_info)
                               then dict_set agent_name [] agent_info else agent_info);
                section_info = (case map_of agent_info1 agent_name of
                                  None \<Rightarrow> [] | Some d \<Rightarrow> d)
            in events_loop get_top_n_events_sorted get_event_stats results agent_name
                 (dict_set agent_name (dict_set event info section_info) agent_info1)
                 events))"

fun sections_loop ::
  "('r \<Rightarrow> string \<Rightarrow> search_result_indices option \<Rightarrow> nat \<Rightarrow> 'e list) \<Rightarrow>
   ('r \<Rightarrow> string \<Rightarrow> search_result_indices option \<Rightarrow> 'stats) \<Rightarrow>
   'r \<Rightarrow> ('e, 'stats) agent_info \<Rightarrow> (string \<times> string list) list \<Rightarrow> ('e, 'stats) agent_info" where
  "sections_loop get_top_n_events_sorted get_event_stats results agent_info [] = agent_info"
| "sections_loop get_top_n_events_sorted get_event_stats results agent_info
     ((section, events) # event_definitions) =
     sections_loop get_top_n_events_sorted get_event_stats results
       (events_loop get_top_n_events_sorted get_event_stats results section agent_info events)
       event_definitions"

definition process_results ::
  "('r \<Rightarrow> string \<Rightarrow> search_result_indices option \<Rightarrow> nat \<Rightarrow> 'e list) \<Rightarrow>
   ('r \<Rightarrow> string \<Rightarrow> search_result_indices option \<Rightarrow> 'stats) \<Rightarrow>
   (string \<times> string list) list \<Rightarrow> 'r \<Rightarrow> ('e, 'stats) agent_info" where
  "process_results get_top_n_events_sorted get_event_stats event_definitions results =
     sections_loop get_top_n_events_sorted get_event_stats results [] event_definitions"

text \<open>
  Notions used to state what \<open>process_results\<close> computes: an event has a top list, the
  entry stored for an event, and the entries of a run of events stored one after the other.
\<close>

definition has_top ::
  "('r \<Rightarrow> string \<Rightarrow> search_result_indices option \<Rightarrow> nat \<Rightarrow> 'e list) \<Rightarrow> 'r \<Rightarrow> string \<Rightarrow> bool" where
  "has_top T results event \<longleftrightarrow> T results event (custom_idxs event) 5 \<noteq> []"

definition info_of ::
  "('r \<Rightarrow> string \<Rightarrow> search_result_indices option \<Rightarrow> nat \<Rightarrow> 'e list) \<Rightarrow>
   ('r \<Rightarrow> string \<Rightarrow> search_result_indices option \<Rightarrow> 'stats) \<Rightarrow> 'r \<Rightarrow> string \<Rightarrow>
   ('e list, 'stats) event_info" where
  "info_of T S results event =
     \<lparr>top = T results event (custom_idxs event) 5, stats = S results event (custom_idxs event)\<rparr>"

definition add_events ::
  "('r \<Rightarrow> string \<Rightarrow> search_result_indices option \<Rightarrow> nat \<Rightarrow> 'e list) \<Rightarrow>
   ('r \<Rightarrow> string \<Rightarrow> search_result_indices option \<Rightarrow> 'stats) \<Rightarrow> 'r \<Rightarrow>
   ('e list, 'stats) event_info dict \<Rightarrow> string list \<Rightarrow> ('e list, 'stats) event_info dict" where
  "add_events T S results d events =
     foldl (\<lambda>d event. dict_set event (info_of T S results event) d) d events"

section \<open>The event stats engine\<close>

text \<open>
  Modelled from the spec: \<open>LogEventStats\<close> (\<open>core.analytics\<close>) is missing from the
  sources. Section 4.2 of the specification gives its contract: a sample has an entity id,
  a start and an end; its duration is end minus start (here in hundredths of a second);
  the top N are the samples by duration descending, ties by entity id ascending, cut to
  \<open>top_n\<close>; the summary is computed over all samples and is absent when there are none.
  The count, the minimum and the maximum are modelled; the average and the standard
  deviation are roundings of floating-point numbers and are left out.
\<close>

record event_sample =
  entity_id :: string
  start_ts :: int
  end_ts :: int
  metadata :: "string option"

record stats_summary =
  st_count :: nat
  st_min :: int
  st_max :: int

definition duration :: "event_sample \<Rightarrow> int" where
  "duration s = end_ts s - start_ts s"

definition top_n_events_sorted :: "event_sample list \<Rightarrow> nat \<Rightarrow> event_sample list" where
  "top_n_events_sorted samples top_n =
     take top_n (sort_key (\<lambda>s. - duration s) (sort_key entity_id samples))"

definition event_stats :: "event_sample list \<Rightarrow> stats_summary option" where
  "event_stats samples =
     (if samples = [] then None
      else Some \<lparr>st_count = length samples,
                 st_min = Min (set (map duration samples)),
                 st_max = Max (set (map duration samples))\<rparr>)"

text \<open>
  The engine as \<open>process_results\<close> uses it: \<open>samples_of\<close> stands for what
  \<open>LogEventStats.run\<close> extracts from the search results for one event.
\<close>

definition stats_top ::
  "('r \<Rightarrow> string \<Rightarrow> search_result_indices option \<Rightarrow> event_sample list) \<Rightarrow>
   'r \<Rightarrow> string \<Rightarrow> search_result_indices option \<Rightarrow> nat \<Rightarrow> event_sample list" where
  "stats_top samples_of results event sri top_n =
     top_n_events_sorted (samples_of results event sri) top_n"

definition stats_summary_of ::
  "('r \<Rightarrow> string \<Rightarrow> search_result_indices option \<Rightarrow> event_sample list) \<Rightarrow>
   'r \<Rightarrow> string \<Rightarrow> search_result_indices option \<Rightarrow> stats_summary option" where
  "stats_summary_of samples_of results event sri = event_stats (samples_of results event sri)"

text \<open>
  Two sections for the examples: in the first the second event has no sample while the
  third has one; the second section has one event with seven samples.
\<close>

definition demo_definitions :: "(string \<times> string list) list" where
  "demo_definitions =
     [(''neutron-l3-agent'', [''router-spawn-events'', ''router-updates'', ''router-deletes'']),
      (''neutron-ovs-agent'', [''rpc-loop''])]"

definition demo_samples :: "string \<Rightarrow> event_sample list" where
  "demo_samples event =
     (if event = ''router-spawn-events'' then
        [\<lparr>entity_id = ''984c22fd'', start_ts = 0, end_ts = 57802, metadata = None\<rparr>]
      else if event = ''router-deletes'' then
        [\<lparr>entity_id = ''71d46ba3'', start_ts = 10, end_ts = 25, metadata = None\<rparr>]
      else if event = ''rpc-loop'' then
        [\<lparr>entity_id = ''2100'', start_ts = 100, end_ts = 101, metadata = None\<rparr>,
         \<lparr>entity_id = ''3152'', start_ts = 200, end_ts = 202, metadata = None\<rparr>,
         \<lparr>entity_id = ''2101'', start_ts = 300, end_ts = 301, metadata = None\<rparr>,
         \<lparr>entity_id = ''3693'', start_ts = 400, end_ts = 402, metadata = None\<rparr>,
         \<lparr>entity_id = ''1500'', start_ts = 500, end_ts = 500, metadata = None\<rparr>,
         \<lparr>entity_id = ''3302'', start_ts = 600, end_ts = 602, metadata = None\<rparr>,
         \<lparr>entity_id = ''1501'', start_ts = 700, end_ts = 700, metadata = None\<rparr>]
      else [])"

definition demo_rpc_info :: "(event_sample list, stats_summary option) event_info" where
  "demo_rpc_info =
     \<lparr>top = [\<lparr>entity_id = ''3152'', start_ts = 200, end_ts = 202, metadata = None\<rparr>,
             \<lparr>entity_id = ''3302'', start_ts = 600, end_ts = 602, metadata = None\<rparr>,
             \<lparr>entity_id = ''3693'', start_ts = 400, end_ts = 402, metadata = None\<rparr>,
             \<lparr>entity_id = ''2100'', start_ts = 100, end_ts = 101, metadata = None\<rparr>,
             \<lparr>entity_id = ''2101'', start_ts = 300, end_ts = 301, metadata = None\<rparr>],
      stats = Some \<lparr>st_count = 7, st_min = 0, st_max = 2\<rparr>\<rparr>"

section \<open>AgentExceptionChecks.run\<close>

text \<open>
  A project has a name (the key under which it is listed), is installed or not, and has
  services. The search results are read through \<open>find_by_tag\<close>. The value \<open>run\<close>
  returns maps a log level to a project name to an agent to the tally of that agent.
\<close>

record ost_project =
  installed :: bool
  services :: "string list"

type_synonym agent_exceptions = "tally option dict dict dict"

text \<open>
  Modelled from the spec: the cache (\<open>MPCache\<close>, a class of the \<open>searchkit\<close> library) is
  missing from the sources. Section 4.3 of the specification gives its contract:
  \<open>get(key)\<close> returns the payload or absence, \<open>set(key, payload)\<close> stores it.
\<close>

definition cache_get :: "'p dict \<Rightarrow> string \<Rightarrow> 'p option" where
  "cache_get c key = map_of c key"

definition cache_set :: "'p dict \<Rightarrow> string \<Rightarrow> 'p \<Rightarrow> 'p dict" where
  "cache_set c key payload = AList.update key payload c"

text \<open>
  The state a call of \<open>run\<close> works on: the cache, and a counter of the times the
  aggregation was computed, which the program does not have and which only serves to
  state that a call did not compute.
\<close>

record checks_state =
  cache :: "agent_exceptions dict"
  computations :: nat

text \<open>The constructor of \<open>AgentExceptionCheckResults\<close>, lines 30-32: one tally per agent.\<close>

fun check_results_data ::
  "string \<Rightarrow> tally option dict \<Rightarrow> (string \<times> search_result list) list \<Rightarrow>
   py_error + tally option dict" where
  "check_results_data g data [] = Inr data"
| "check_results_data g data ((name, results) # rest) =
     (case tally_results g results of
        Inl e \<Rightarrow> Inl e
      | Inr t \<Rightarrow> check_results_data g (dict_set name t data) rest)"

definition AgentExceptionCheckResults ::
  "string \<Rightarrow> (string \<times> search_result list) list \<Rightarrow> py_error + tally option dict" where
  "AgentExceptionCheckResults g results = check_results_data g [] results"

text \<open>
  \<open>run\<close>, lines 243-272: the loop over the services of a project (lines 254-258), over
  the two log levels (lines 252-269) and over the projects (lines 248-269). An exception
  of the tally leaves \<open>run\<close> before the cache is written.
\<close>

fun agents_loop ::
  "(string \<Rightarrow> search_result list) \<Rightarrow> string \<Rightarrow> string \<Rightarrow> search_result list dict \<Rightarrow>
   string list \<Rightarrow> search_result list dict" where
  "agents_loop find_by_tag name log_level agent_results [] = agent_results"
| "agents_loop find_by_tag name log_level agent_results (agent # agents) =
     (let tag = name @ ''.'' @ agent;
          results = find_by_tag (tag @ ''.'' @ log_level)
      in agents_loop find_by_tag name log_level
           (if results \<noteq> [] then dict_set agent results agent_results else agent_results)
           agents)"

fun levels_loop ::
  "string \<Rightarrow> (string \<Rightarrow> search_result list) \<Rightarrow> string \<Rightarrow> ost_project \<Rightarrow> agent_exceptions \<Rightarrow>
   string list \<Rightarrow> py_error + agent_exceptions" where
  "levels_loop g find_by_tag name project agent_exceptions [] = Inr agent_exceptions"
| "levels_loop g find_by_tag name project agent_exceptions (log_level # levels) =
     (let agent_results = agents_loop find_by_tag name log_level [] (services project)
      in if agent_results = [] then
           levels_loop g find_by_tag name project agent_exceptions levels
         else
           (let agent_exceptions1 =
                  (if log_level \<notin> set (keys agent_exceptions)
                   then dict_set log_level [] agent_exceptions else agent_exceptions)
            in case AgentExceptionCheckResults g agent_results of
                 Inl e \<Rightarrow> Inl e
               | Inr results \<Rightarrow>
                   levels_loop g find_by_tag name project
                     (dict_set log_level
                        (dict_set name results
                           (case map_of agent_exceptions1 log_level of
                              None \<Rightarrow> [] | Some d \<Rightarrow> d))
                        agent_exceptions1)
                     levels))"

fun projects_loop ::
  "string \<Rightarrow> (string \<Rightarrow> search_result list) \<Rightarrow> agent_exceptions \<Rightarrow>
   (string \<times> ost_project) list \<Rightarrow> py_error + agent_exceptions" where
  "projects_loop g find_by_tag agent_exceptions [] = Inr agent_exceptions"
| "projects_loop g find_by_tag agent_exceptions ((name, project) # projects) =
     (if \<not> installed project then projects_loop g find_by_tag agent_exceptions projects
      else
        (case levels_loop g find_by_tag name project agent_exceptions [''warning'', ''error''] of
           Inl e \<Rightarrow> Inl e
         | Inr agent_exceptions' \<Rightarrow> projects_loop g find_by_tag agent_exceptions' projects))"

definition run ::
  "string \<Rightarrow> (string \<times> ost_project) list \<Rightarrow> (string \<Rightarrow> search_result list) \<Rightarrow> checks_state \<Rightarrow>
   (py_error + agent_exceptions) \<times> checks_state" where
  "run g ost_projects find_by_tag s =
     (let agent_exceptions =
            (case cache_get (cache s) ''agent_exceptions'' of
               None \<Rightarrow> []
             | Some payload \<Rightarrow> if payload = [] then [] else payload)
      in if agent_exceptions \<noteq> [] then (Inr agent_exceptions, s)
         else
           (let s1 = s\<lparr>computations := computations s + 1\<rparr>
            in case projects_loop g find_by_tag agent_exceptions ost_projects of
                 Inl e \<Rightarrow> (Inl e, s1)
               | Inr agent_exceptions' \<Rightarrow>
                   (Inr agent_exceptions',
                    s1\<lparr>cache := cache_set (cache s1) ''agent_exceptions'' agent_exceptions'\<rparr>)))"

text \<open>
  One installed project with one agent, whose error log holds the three records of
  \<open>ex\<close>; and search results without any hit.
\<close>

definition demo_projects :: "(string \<times> ost_project) list" where
  "demo_projects = [(''neutron'', \<lparr>installed = True, services = [''neutron-dhcp-agent'']\<rparr>)]"

definition demo_find_by_tag :: "string \<Rightarrow> search_result list" where
  "demo_find_by_tag tag = (if tag = ''neutron.neutron-dhcp-agent.error'' then ex else [])"

definition demo_payload :: agent_exceptions where
  "demo_payload =
     [(''error'', [(''neutron'', [(''neutron-dhcp-agent'',
        Some [(''MessagingTimeout'', [(''2022-02-04'', 2), (''2022-02-09'', 1)])])])])]"

definition demo_no_hits :: "string \<Rightarrow> search_result list" where
  "demo_no_hits tag = []"

section \<open>The loop of the tally\<close>

lemma notin_keys_iff: "k \<notin> set (keys d) \<longleftrightarrow> map_of d k = None"
  by (simp add: keys_def map_of_eq_None_iff)

lemma tally_step_bump:
  "tally_step g t r =
     (case bucket_key g r of Inl e \<Rightarrow> Inl e | Inr k \<Rightarrow> Inr (bump (exc_name_of r) k t))"
proof (cases "bucket_key g r")
  case (Inl e)
  then show ?thesis by (simp add: tally_step_def Let_def)
next
  case (Inr k)
  let ?n = "exc_name_of r"
  show ?thesis
  proof (cases "map_of t ?n")
    case None
    then show ?thesis using Inr
      by (simp add: tally_step_def Let_def notin_keys_iff dict_get_def dict_set_def
          update_conv' bump_def buckets_of_def count_in_def exc_name_of_def[symmetric])
  next
    case (Some b)
    then show ?thesis using Inr
      by (cases "map_of b k")
         (simp_all add: tally_step_def Let_def notin_keys_iff dict_get_def dict_set_def
          update_conv' bump_def buckets_of_def count_in_def exc_name_of_def[symmetric])
  qed
qed

lemma tally_loop_Inr_iff:
  "tally_loop g t rs = Inr t' \<longleftrightarrow>
     (\<forall>r \<in> set rs. bucket_key g r = Inr (key_of g r)) \<and> t' = bump_all (key_of g) t rs"
  by (induction rs arbitrary: t) (auto simp add: tally_step_bump key_of_def split: sum.splits)

lemma map_of_bump:
  "map_of (bump n k t) n' =
     (if n' = n then Some (AList.update k (count_in (buckets_of t n) k + 1) (buckets_of t n))
      else map_of t n')"
  by (simp add: bump_def update_conv')

lemma buckets_of_bump:
  "buckets_of (bump n k t) n' =
     (if n' = n then AList.update k (count_in (buckets_of t n) k + 1) (buckets_of t n)
      else buckets_of t n')"
  by (simp add: buckets_of_def map_of_bump)

lemma tallied_Nil: "tallied kf [] []"
  by (simp add: tallied_def buckets_of_def occ_def)

lemma occ_snoc:
  "occ kf (rs @ [r]) n k = occ kf rs n k + (if exc_name_of r = n \<and> kf r = k then 1 else 0)"
  by (simp add: occ_def)

lemma tallied_bump:
  assumes "tallied kf rs t"
  shows "tallied kf (rs @ [r]) (bump (exc_name_of r) (kf r) t)"
proof -
  let ?n = "exc_name_of r" and ?k = "kf r"
  have d: "distinct (map fst (bump ?n ?k t))"
    using assms by (simp add: bump_def tallied_def distinct_update)
  have s: "fst ` set (bump ?n ?k t) = exc_name_of ` set (rs @ [r])"
    using assms by (auto simp add: bump_def tallied_def dom_update)
  have b: "distinct (map fst (buckets_of (bump ?n ?k t) n))" for n
    using assms by (simp add: buckets_of_bump tallied_def distinct_update)
  have c: "map_of (buckets_of (bump ?n ?k t) n) k =
      (if occ kf (rs @ [r]) n k = 0 then None else Some (int (occ kf (rs @ [r]) n k)))" for n k
    using assms by (simp add: buckets_of_bump tallied_def update_conv' occ_snoc count_in_def)
  show ?thesis
    unfolding tallied_def using d s b c by blast
qed

lemma tallied_bump_all:
  "tallied kf rs t \<Longrightarrow> tallied kf (rs @ rs') (bump_all kf t rs')"
proof (induction rs' arbitrary: rs t)
  case Nil
  then show ?case by simp
next
  case (Cons r rs')
  from Cons.IH [OF tallied_bump [OF Cons.prems, of r]] show ?case by simp
qed

lemma sum_update_count:
  "sum_list (map snd (AList.update k (count_in b k + 1) b)) = sum_list (map snd b) + 1"
  by (induction b) (auto simp add: count_in_def)

lemma sum_bump_all:
  "sum_list (map snd (buckets_of (bump_all kf t rs) n)) =
     sum_list (map snd (buckets_of t n)) + int (length (filter (\<lambda>r. exc_name_of r = n) rs))"
  by (induction rs arbitrary: t) (simp_all add: buckets_of_bump sum_update_count)

lemma foldl_dict_set_distinct:
  "distinct (map fst (acc @ xs)) \<Longrightarrow>
     foldl (\<lambda>d (k, v). dict_set k v d) acc xs = acc @ xs"
proof (induction xs arbitrary: acc)
  case Nil
  then show ?case by simp
next
  case (Cons x xs)
  obtain k v where x: "x = (k, v)" by (cases x)
  have "k \<notin> fst ` set acc" using Cons.prems x by auto
  then have "AList.update k v acc = acc @ [(k, v)]"
    by (induction acc) auto
  with Cons x show ?case by (simp add: dict_set_def)
qed

lemma sort_buckets_distinct:
  "distinct (map fst b) \<Longrightarrow> sort_buckets b = sort_key fst b"
  unfolding sort_buckets_def
  using foldl_dict_set_distinct [of "[]" "sort_key fst b"]
  by (simp add: distinct_map set_sort)

lemma alist_canon:
  "distinct (map fst b) \<Longrightarrow> map (\<lambda>k. (k, the (map_of b k))) (map fst b) = b"
proof (induction b)
  case Nil
  then show ?case by simp
next
  case (Cons p ps)
  then have "map (\<lambda>k. (k, the (map_of (p # ps) k))) (map fst ps)
           = map (\<lambda>k. (k, the (map_of ps k))) (map fst ps)"
    by (intro map_cong refl) (force simp add: image_iff)
  with Cons show ?case by simp
qed

lemma occ_pos_iff: "occ kf rs n k \<noteq> 0 \<longleftrightarrow> k \<in> kf ` {r \<in> set rs. exc_name_of r = n}"
  by (auto simp add: occ_def filter_empty_conv)

lemma tallied_keys:
  assumes "tallied kf rs t"
  shows "fst ` set (buckets_of t n) = kf ` {r \<in> set rs. exc_name_of r = n}"
proof -
  have "k \<in> fst ` set (buckets_of t n) \<longleftrightarrow> occ kf rs n k \<noteq> 0" for k
  proof -
    have "k \<in> fst ` set (buckets_of t n) \<longleftrightarrow> map_of (buckets_of t n) k \<noteq> None"
      by (simp add: map_of_eq_None_iff)
    also have "\<dots> \<longleftrightarrow> occ kf rs n k \<noteq> 0"
      using assms by (simp add: tallied_def)
    finally show ?thesis .
  qed
  then show ?thesis using occ_pos_iff [of kf rs n] by blast
qed

lemma tallied_sorted:
  assumes "tallied kf rs t"
  shows "sort_buckets (buckets_of t n) = buckets_spec kf rs n"
proof -
  let ?b = "buckets_of t n" and ?b' = "sort_key fst (buckets_of t n)"
  have db: "distinct (map fst ?b)" using assms by (simp add: tallied_def)
  then have db': "distinct (map fst ?b')"
    by (simp add: distinct_map)
  have "sorted (map fst ?b')" by simp
  moreover have "set (map fst ?b') = kf ` {r \<in> set rs. exc_name_of r = n}"
    using tallied_keys [OF assms, of n] by simp
  ultimately have ks: "map fst ?b' = sorted_list_of_set (kf ` {r \<in> set rs. exc_name_of r = n})"
    using db' by (metis sorted_list_of_set.idem_if_sorted_distinct)
  have "map_of ?b' = map_of ?b"
    using db db' by (simp add: map_of_inject_set)
  then have m: "map_of ?b' k = (if occ kf rs n k = 0 then None else Some (int (occ kf rs n k)))" for k
    using assms by (simp add: tallied_def)
  have "map (\<lambda>k. (k, the (map_of ?b' k))) (map fst ?b') = map (\<lambda>k. (k, int (occ kf rs n k))) (map fst ?b')"
  proof (intro map_cong refl)
    fix k assume "k \<in> set (map fst ?b')"
    then have "occ kf rs n k \<noteq> 0"
      using tallied_keys [OF assms, of n] occ_pos_iff [of kf rs n k] by simp
    then show "(k, the (map_of ?b' k)) = (k, int (occ kf rs n k))" by (simp add: m)
  qed
  then have "?b' = map (\<lambda>k. (k, int (occ kf rs n k))) (map fst ?b')"
    by (rule trans [OF alist_canon [OF db', symmetric]])
  then have "?b' = buckets_spec kf rs n"
    unfolding buckets_spec_def ks [symmetric] .
  then show ?thesis using db by (simp add: sort_buckets_distinct)
qed

lemma tallied_run: "tallied kf rs (bump_all kf [] rs)"
  using tallied_bump_all [OF tallied_Nil, of kf rs] by simp

lemma bump_all_Nil_iff: "bump_all kf [] rs = [] \<longleftrightarrow> rs = []"
proof
  assume "bump_all kf [] rs = []"
  with tallied_run [of kf rs] have "exc_name_of ` set rs = {}"
    by (simp add: tallied_def)
  then show "rs = []" by simp
qed simp

lemma tally_results_ok:
  assumes "\<forall>r \<in> set rs. bucket_key g r = Inr (key_of g r)"
  shows "tally_results g rs =
     Inr (if rs = [] then None else Some (sorted_table (bump_all (key_of g) [] rs)))"
proof -
  from assms have "tally_loop g [] rs = Inr (bump_all (key_of g) [] rs)"
    by (simp add: tally_loop_Inr_iff)
  then show ?thesis
    by (simp add: tally_results_def sorted_table_def bump_all_Nil_iff)
qed

lemma tally_results_InrD:
  assumes "tally_results g rs = Inr res"
  shows "\<forall>r \<in> set rs. bucket_key g r = Inr (key_of g r)"
proof (cases "tally_loop g [] rs")
  case (Inl e)
  with assms show ?thesis by (simp add: tally_results_def)
next
  case (Inr t')
  then show ?thesis by (simp add: tally_loop_Inr_iff)
qed

lemma tally_results_SomeD:
  assumes "tally_results g rs = Inr (Some t)"
  shows "rs \<noteq> [] \<and> t = sorted_table (bump_all (key_of g) [] rs)"
proof -
  have "tally_results g rs =
     Inr (if rs = [] then None else Some (sorted_table (bump_all (key_of g) [] rs)))"
    by (rule tally_results_ok [OF tally_results_InrD [OF assms]])
  with assms show ?thesis by (cases "rs = []") simp_all
qed

lemma tally_results_entry:
  assumes "tally_results g rs = Inr (Some t)" and "(n, b) \<in> set t"
  shows "n \<in> exc_name_of ` set rs \<and> b = buckets_spec (key_of g) rs n"
proof -
  let ?t0 = "bump_all (key_of g) [] rs"
  have T: "tallied (key_of g) rs ?t0" by (rule tallied_run)
  from tally_results_SomeD [OF assms(1)] have t: "t = sorted_table ?t0" by simp
  with assms(2) obtain b0 where b0: "(n, b0) \<in> set ?t0" "b = sort_buckets b0"
    by (auto simp add: sorted_table_def)
  from T have "distinct (map fst ?t0)" by (simp add: tallied_def)
  with b0(1) have "buckets_of ?t0 n = b0" by (simp add: buckets_of_def)
  with b0(2) tallied_sorted [OF T, of n] have "b = buckets_spec (key_of g) rs n" by simp
  moreover have "fst (n, b0) \<in> fst ` set ?t0" using b0(1) by (rule imageI)
  then have "n \<in> exc_name_of ` set rs"
    using T by (simp add: tallied_def)
  ultimately show ?thesis by simp
qed

lemma keys_sorted_table: "keys (sorted_table t) = keys t"
  by (induction t) (auto simp add: keys_def sorted_table_def)

lemma tally_results_keys:
  assumes "tally_results g rs = Inr (Some t)"
  shows "distinct (keys t) \<and> set (keys t) = exc_name_of ` set rs"
proof -
  let ?t0 = "bump_all (key_of g) [] rs"
  have T: "tallied (key_of g) rs ?t0" by (rule tallied_run)
  from tally_results_SomeD [OF assms(1)] have "keys t = keys ?t0"
    by (simp add: keys_sorted_table)
  with T show ?thesis by (simp add: keys_def tallied_def)
qed

lemma sum_sort_key: "sum_list (map snd (sort_key fst (b :: int dict))) = sum_list (map snd b)"
proof -
  have "sum_mset (mset (map snd (sort_key fst b))) = sum_mset (mset (map snd b))"
    by simp
  then show ?thesis by (simp only: sum_mset_sum_list)
qed

lemma sum_buckets_spec:
  "sum_list (map snd (buckets_spec kf rs n)) = int (length (filter (\<lambda>r. exc_name_of r = n) rs))"
proof -
  have T: "tallied kf rs (bump_all kf [] rs)" by (rule tallied_run)
  then have d: "distinct (map fst (buckets_of (bump_all kf [] rs) n))"
    by (simp add: tallied_def)
  have "buckets_spec kf rs n = sort_key fst (buckets_of (bump_all kf [] rs) n)"
    using tallied_sorted [OF T, of n] sort_buckets_distinct [OF d] by simp
  then show ?thesis
    using sum_bump_all [of kf "[]" rs n] by (simp add: sum_sort_key buckets_of_def)
qed

lemma keys_buckets_spec:
  "keys (buckets_spec kf rs n) = sorted_list_of_set (kf ` {r \<in> set rs. exc_name_of r = n})"
  by (simp add: keys_def buckets_spec_def comp_def)

lemma buckets_spec_mset:
  assumes "mset rs' = mset rs"
  shows "buckets_spec kf rs' n = buckets_spec kf rs n"
proof -
  have s: "set rs' = set rs" using assms by (rule mset_eq_setD)
  have "occ kf rs' n k = occ kf rs n k" for k
  proof -
    have "size (filter_mset (\<lambda>r. exc_name_of r = n \<and> kf r = k) (mset rs'))
        = size (filter_mset (\<lambda>r. exc_name_of r = n \<and> kf r = k) (mset rs))"
      using assms by simp
    then show ?thesis unfolding occ_def mset_filter [symmetric] size_mset .
  qed
  then show ?thesis by (simp add: buckets_spec_def s)
qed

lemma tally_results_entry_conv:
  assumes "tally_results g rs = Inr (Some t)" and "n \<in> exc_name_of ` set rs"
  shows "(n, buckets_spec (key_of g) rs n) \<in> set t"
proof -
  have "n \<in> set (keys t)" using tally_results_keys [OF assms(1)] assms(2) by simp
  then obtain b where b: "(n, b) \<in> set t" by (auto simp add: keys_def)
  with tally_results_entry [OF assms(1) b] show ?thesis by simp
qed

lemma rev_dropWhile_split:
  "xs = rev (dropWhile P (rev xs)) @ rev (takeWhile P (rev xs))"
proof -
  have "rev xs = takeWhile P (rev xs) @ dropWhile P (rev xs)" by simp
  then have "rev (rev xs) = rev (takeWhile P (rev xs) @ dropWhile P (rev xs))"
    by (rule arg_cong)
  then show ?thesis by (simp only: rev_rev_ident rev_append)
qed

lemma takeWhile_eq_replicate:
  "takeWhile (\<lambda>x. x \<in> set [c]) xs = replicate (length (takeWhile (\<lambda>x. x \<in> set [c]) xs)) c"
  by (induction xs) auto

lemma strip_decomp:
  "\<exists>i j. s = replicate i c @ strip [c] s @ replicate j c"
proof -
  define P where "P = (\<lambda>x. x \<in> set [c])"
  define u where "u = dropWhile P s"
  obtain i where i: "takeWhile P s = replicate i c"
    using takeWhile_eq_replicate [of c s] unfolding P_def by blast
  obtain j where j: "takeWhile P (rev u) = replicate j c"
    using takeWhile_eq_replicate [of c "rev u"] unfolding P_def by blast
  have "s = takeWhile P s @ u" by (simp add: u_def)
  also have "u = rev (dropWhile P (rev u)) @ rev (takeWhile P (rev u))"
    by (rule rev_dropWhile_split)
  also have "rev (dropWhile P (rev u)) = strip [c] s"
    by (simp only: strip_def u_def P_def)
  finally have "s = replicate i c @ strip [c] s @ replicate j c"
    by (simp only: i j rev_replicate)
  then show ?thesis by blast
qed

lemma last_dropWhile: "dropWhile P xs \<noteq> [] \<Longrightarrow> last (dropWhile P xs) = last xs"
  by (induction xs) (auto split: if_splits)

lemma strip_ends:
  "strip [c] s = [] \<or> (hd (strip [c] s) \<noteq> c \<and> last (strip [c] s) \<noteq> c)"
proof (cases "strip [c] s = []")
  case True
  then show ?thesis by simp
next
  case False
  define P where "P = (\<lambda>x. x \<in> set [c])"
  define u where "u = dropWhile P s"
  define w where "w = dropWhile P (rev u)"
  have sw: "strip [c] s = rev w" by (simp only: strip_def w_def u_def P_def)
  with False have w: "w \<noteq> []" by simp
  have u: "u \<noteq> []"
  proof
    assume "u = []"
    then have "w = []" by (simp add: w_def)
    with w show False by contradiction
  qed
  have "\<not> P (hd w)" using w unfolding w_def by (rule hd_dropWhile)
  moreover have "last w = last (rev u)" using w unfolding w_def by (rule last_dropWhile)
  moreover have "last (rev u) = hd u" using u by (simp add: last_rev)
  moreover have "\<not> P (hd u)" using u unfolding u_def by (rule hd_dropWhile)
  moreover have "last (rev w) = hd w" using w by (simp add: last_rev)
  moreover have "hd (rev w) = last w" using w by (simp add: hd_rev)
  ultimately have "hd (rev w) \<noteq> c \<and> last (rev w) \<noteq> c" by (simp add: P_def)
  then show ?thesis by (simp only: sw) simp
qed

section \<open>The regular expression and the two granularities\<close>

lemma greedy_append:
  assumes "\<forall>c \<in> set h. X c" and "h \<noteq> []" and "rest = [] \<or> \<not> X (hd rest)"
  shows "greedy X (h @ rest) = length h # rev [1 ..< length h]"
proof -
  have "takeWhile X (h @ rest) = h"
    using assms(1,3) by (cases rest) (simp_all add: takeWhile_append2)
  moreover have "Suc 0 \<le> length h" using assms(2) by (cases h) simp_all
  ultimately show ?thesis by (simp add: greedy_def)
qed

lemma first_some_SomeD: "first_some f xs = Some y \<Longrightarrow> \<exists>x \<in> set xs. f x = Some y"
  by (induction xs) (auto split: option.splits)

lemma greedy_mem: "i \<in> set (greedy X s) \<Longrightarrow> 0 < i \<and> (\<forall>c \<in> set (take i s). X c)"
proof -
  assume "i \<in> set (greedy X s)"
  then have i: "0 < i" "i \<le> length (takeWhile X s)" by (auto simp add: greedy_def)
  have "take i s = take i (takeWhile X s @ dropWhile X s)" by simp
  also have "\<dots> = take i (takeWhile X s)" using i(2) by (simp only: take_append) simp
  finally have "set (take i s) \<subseteq> set (takeWhile X s)" by (simp add: set_take_subset)
  then show ?thesis using i(1) by (auto dest: set_takeWhileD)
qed

lemma match_at_prefix:
  assumes "\<forall>c \<in> set h. is_digit c" "h \<noteq> []" "\<forall>c \<in> set m. is_digit c" "m \<noteq> []"
    and "\<not> is_digit c" "c \<noteq> CHR 0x0A"
  shows "match_at (h @ '':'' @ m @ c # rest) = Some (h @ '':'' @ m)"
proof -
  have nd: "\<not> is_digit CHR '':''" by (simp add: is_digit_def)
  have g1: "greedy is_digit (h @ '':'' @ m @ c # rest) = length h # rev [1 ..< length h]"
    using assms(1,2) nd by (intro greedy_append) simp_all
  have g2: "greedy is_digit (m @ c # rest) = length m # rev [1 ..< length m]"
    using assms(3,4,5) by (intro greedy_append) simp_all
  have g3: "greedy is_dot (c # rest) \<noteq> []"
    using assms(6) by (simp add: greedy_def is_dot_def)
  show ?thesis
    unfolding match_at_def g1 by (simp add: g2 g3)
qed

lemma search_prefix:
  assumes "\<forall>c \<in> set h. is_digit c" "h \<noteq> []" "\<forall>c \<in> set m. is_digit c" "m \<noteq> []"
    and "\<not> is_digit c" "c \<noteq> CHR 0x0A"
  shows "search (h @ '':'' @ m @ c # rest) = Some (h @ '':'' @ m)"
proof -
  obtain x xs where h: "h = x # xs" using assms(2) by (cases h) auto
  have "search ((x # xs) @ '':'' @ m @ c # rest) = Some ((x # xs) @ '':'' @ m)"
    using match_at_prefix [OF assms, of rest] unfolding h by simp
  then show ?thesis unfolding h .
qed

lemma match_at_chars:
  assumes "match_at s = Some g"
  shows "\<forall>c \<in> set g. is_digit c \<or> c = CHR '':''"
proof -
  from first_some_SomeD [OF assms [unfolded match_at_def]]
  obtain i where i: "i \<in> set (greedy is_digit s)"
    and f: "(case drop i s of [] \<Rightarrow> None
       | c # s1 \<Rightarrow> if c = CHR '':'' then
             first_some (\<lambda>j.
               if greedy is_dot (drop j s1) \<noteq> [] then Some (take i s @ '':'' @ take j s1)
               else None) (greedy is_digit s1)
           else None) = Some g" by blast
  from f obtain s1 where s1: "first_some (\<lambda>j.
               if greedy is_dot (drop j s1) \<noteq> [] then Some (take i s @ '':'' @ take j s1)
               else None) (greedy is_digit s1) = Some g"
    by (auto split: list.splits if_splits)
  from first_some_SomeD [OF s1] obtain j where j: "j \<in> set (greedy is_digit s1)"
    and g: "g = take i s @ '':'' @ take j s1" by (auto split: if_splits)
  from greedy_mem [OF i] greedy_mem [OF j] show ?thesis unfolding g by auto
qed

lemma search_chars: "search s = Some g \<Longrightarrow> \<forall>c \<in> set g. is_digit c \<or> c = CHR '':''"
proof (induction s)
  case Nil
  then show ?case using match_at_chars [of "[]" g] by simp
next
  case (Cons a s)
  then show ?case using match_at_chars [of "a # s" g] by (auto split: option.splits)
qed

lemma date_part_key:
  assumes "CHR ''_'' \<notin> set hm"
  shows "date_part (d @ ''_'' @ hm) = d"
proof -
  have "dropWhile (\<lambda>c. c \<noteq> CHR ''_'') (rev hm @ CHR ''_'' # rev d) = CHR ''_'' # rev d"
    using assms by (auto simp add: dropWhile_append3)
  then show ?thesis by (simp add: date_part_def)
qed

lemma key_of_date: "g \<noteq> ''time'' \<Longrightarrow> key_of g r = get1 r"
  by (simp add: key_of_def bucket_key_def)

lemma key_of_time:
  assumes "bucket_key ''time'' r = Inr k"
  shows "date_part k = get1 r"
proof -
  from assms obtain hm where hm: "search (get2 r) = Some hm" and k: "k = get1 r @ ''_'' @ hm"
    by (auto simp add: bucket_key_def split: option.splits)
  from search_chars [OF hm] have "CHR ''_'' \<notin> set hm"
    by (auto simp add: is_digit_def)
  then show ?thesis unfolding k by (rule date_part_key)
qed

lemma tally_results_canon:
  assumes "tally_results g rs = Inr (Some t)"
  shows "t = map (\<lambda>n. (n, buckets_spec (key_of g) rs n)) (keys t)"
proof -
  have "map (\<lambda>p. (fst p, buckets_spec (key_of g) rs (fst p))) t = map (\<lambda>p. p) t"
  proof (intro map_cong refl)
    fix p assume "p \<in> set t"
    then have "(fst p, snd p) \<in> set t" by simp
    from tally_results_entry [OF assms this]
    show "(fst p, buckets_spec (key_of g) rs (fst p)) = p" by (cases p) simp
  qed
  then show ?thesis by (simp add: keys_def comp_def)
qed

lemma keys_bump: "keys (bump n k t) = (if n \<in> set (keys t) then keys t else keys t @ [n])"
  by (simp add: keys_def bump_def update_keys)

lemma keys_bump_all_indep:
  "keys t = keys t' \<Longrightarrow> keys (bump_all kf t rs) = keys (bump_all kf' t' rs)"
  by (induction rs arbitrary: t t') (simp_all add: keys_bump)

lemma tally_results_keys_indep:
  assumes "tally_results g rs = Inr (Some t)" and "tally_results g' rs = Inr (Some t')"
  shows "keys t = keys t'"
  using tally_results_SomeD [OF assms(1)] tally_results_SomeD [OF assms(2)]
    keys_bump_all_indep [of "[]" "[]" "key_of g" rs "key_of g'"]
  by (simp add: keys_sorted_table)

lemma bucket_keys_canon:
  "bucket_keys (map (\<lambda>n. (n, buckets_spec kf rs n)) ns)
     = concat (map (\<lambda>n. sorted_list_of_set (kf ` {r \<in> set rs. exc_name_of r = n})) ns)"
  by (simp add: bucket_keys_def comp_def keys_buckets_spec)

lemma length_bucket_keys_canon:
  "length (bucket_keys (map (\<lambda>n. (n, buckets_spec kf rs n)) ns))
     = sum_list (map (\<lambda>n. card (kf ` {r \<in> set rs. exc_name_of r = n})) ns)"
  by (simp add: bucket_keys_canon length_concat comp_def)

lemma set_bucket_keys_canon:
  assumes "set ns = exc_name_of ` set rs"
  shows "set (bucket_keys (map (\<lambda>n. (n, buckets_spec kf rs n)) ns)) = kf ` set rs"
  using assms by (auto simp add: bucket_keys_canon)

lemma image_date_part:
  assumes "\<forall>r \<in> A. date_part (kt r) = kd r"
  shows "kd ` A = date_part ` (kt ` A)"
  using assms by (force simp add: image_iff)

section \<open>What the tally returns\<close>

text \<open>
  C8. With no records the tally returns \<open>None\<close> (the bare \<open>return\<close>), whatever the
  granularity; with at least one record it returns neither \<open>None\<close> nor an empty table,
  so the two cases cannot be confused.
\<close>

theorem tally_no_records_absent:
  "tally_results g [] = Inr None \<and>
   (results \<noteq> [] \<longrightarrow>
      tally_results g results \<noteq> Inr None \<and> tally_results g results \<noteq> Inr (Some []))"
proof -
  have "tally_results g [] = Inr None" by (simp add: tally_results_def)
  moreover have "tally_results g results \<noteq> Inr None" if "results \<noteq> []"
  proof
    assume a: "tally_results g results = Inr None"
    from tally_results_ok [OF tally_results_InrD [OF a]] a that show False by simp
  qed
  moreover have "tally_results g results \<noteq> Inr (Some [])" if "results \<noteq> []"
  proof
    assume a: "tally_results g results = Inr (Some [])"
    from tally_results_SomeD [OF a] have "sorted_table (bump_all (key_of g) [] results) = []"
      by simp
    then have "bump_all (key_of g) [] results = []" by (simp add: sorted_table_def)
    with that show False by (simp add: bump_all_Nil_iff)
  qed
  ultimately show ?thesis by blast
qed

theorem tally_no_records_absent_witness:
  "tally_results ''date'' [] = Inr None \<and> ex \<noteq> [] \<and>
   tally_results ''date'' ex \<noteq> Inr None \<and> tally_results ''date'' ex \<noteq> Inr (Some [])"
  using tally_no_records_absent [of "''date''" ex] by (simp add: ex_def)

text \<open>
  C1. In a returned table, the counts under an event name add up to the number of records
  whose name group, stripped of its quotes, is that event name.
\<close>

theorem tally_sum_is_record_count:
  assumes "tally_results g results = Inr (Some t)" and "(event, buckets) \<in> set t"
  shows "sum_list (map snd buckets) =
         int (length (filter (\<lambda>r. strip [CHR 0x27] (get3 r) = event) results))"
proof -
  from tally_results_entry [OF assms] have "buckets = buckets_spec (key_of g) results event"
    by simp
  then show ?thesis
    using sum_buckets_spec [of "key_of g" results event] by (simp add: exc_name_of_def)
qed

theorem tally_sum_is_record_count_witness:
  "tally_results ''date'' ex =
     Inr (Some [(''MessagingTimeout'', [(''2022-02-04'', 2), (''2022-02-09'', 1)])]) \<and>
   sum_list (map snd [(''2022-02-04'', 2), (''2022-02-09'', 1 :: int)]) =
     int (length (filter (\<lambda>r. strip [CHR 0x27] (get3 r) = ''MessagingTimeout'') ex))"
proof -
  have r: "tally_results ''date'' ex =
     Inr (Some [(''MessagingTimeout'', [(''2022-02-04'', 2), (''2022-02-09'', 1)])])"
    by code_simp
  have m: "(''MessagingTimeout'', [(''2022-02-04'', 2), (''2022-02-09'', 1 :: int)])
      \<in> set [(''MessagingTimeout'', [(''2022-02-04'', 2), (''2022-02-09'', 1)])]"
    by simp
  from tally_sum_is_record_count [OF r m] r show ?thesis by simp
qed

text \<open>
  C4. In a returned table the bucket keys of every event name are strictly ascending in
  the lexicographic order, hence pairwise different; and the bucket map of an event name
  does not depend on the order of the records: every rearrangement of the records
  returns a table with the same bucket map under that name.
\<close>

theorem tally_bucket_keys_ascending:
  assumes "tally_results g results = Inr (Some t)" and "(event, buckets) \<in> set t"
  shows "sorted_wrt (<) (keys buckets) \<and>
         (\<forall>results'. mset results' = mset results \<longrightarrow>
            (\<exists>t'. tally_results g results' = Inr (Some t') \<and> (event, buckets) \<in> set t'))"
proof -
  from tally_results_entry [OF assms]
  have ev: "event \<in> exc_name_of ` set results"
    and b: "buckets = buckets_spec (key_of g) results event" by simp_all
  have "sorted_wrt (<) (keys buckets)"
    unfolding b keys_buckets_spec by simp
  moreover have "\<exists>t'. tally_results g results' = Inr (Some t') \<and> (event, buckets) \<in> set t'"
    if p: "mset results' = mset results" for results'
  proof -
    have s: "set results' = set results" using p by (rule mset_eq_setD)
    have ne: "results' \<noteq> []" using ev s by auto
    have "\<forall>r \<in> set results'. bucket_key g r = Inr (key_of g r)"
      using tally_results_InrD [OF assms(1)] s by simp
    from tally_results_ok [OF this] ne
    have r: "tally_results g results' =
        Inr (Some (sorted_table (bump_all (key_of g) [] results')))" by simp
    have "event \<in> exc_name_of ` set results'" using ev s by simp
    from tally_results_entry_conv [OF r this]
    have "(event, buckets) \<in> set (sorted_table (bump_all (key_of g) [] results'))"
      by (simp add: b buckets_spec_mset [OF p])
    with r show ?thesis by blast
  qed
  ultimately show ?thesis by blast
qed

theorem tally_bucket_keys_ascending_witness:
  "tally_results ''time'' ex =
     Inr (Some [(''MessagingTimeout'',
       [(''2022-02-04_11:01'', 1), (''2022-02-04_11:07'', 1), (''2022-02-09_18:56'', 1)])]) \<and>
   sorted_wrt (<) [''2022-02-04_11:01'', ''2022-02-04_11:07'', ''2022-02-09_18:56''] \<and>
   (\<exists>t'. tally_results ''time'' (rev ex) = Inr (Some t') \<and>
      (''MessagingTimeout'',
       [(''2022-02-04_11:01'', 1), (''2022-02-04_11:07'', 1), (''2022-02-09_18:56'', 1)])
        \<in> set t')"
proof -
  let ?b = "[(''2022-02-04_11:01'', 1 :: int), (''2022-02-04_11:07'', 1), (''2022-02-09_18:56'', 1)]"
  have r: "tally_results ''time'' ex = Inr (Some [(''MessagingTimeout'', ?b)])"
    by code_simp
  have m: "(''MessagingTimeout'', ?b) \<in> set [(''MessagingTimeout'', ?b)]" by simp
  have p: "mset (rev ex) = mset ex" by simp
  from tally_bucket_keys_ascending [OF r m] p r show ?thesis
    by (simp add: keys_def)
qed

text \<open>
  C9. The event names of a returned table are exactly the name groups of the records
  with the leading and trailing single quotes removed, each once: the name group is the
  event name between two runs of quotes, and the event name neither starts nor ends
  with a quote.
\<close>

theorem tally_event_names_stripped:
  assumes "tally_results g results = Inr (Some t)"
  shows "set (keys t) = (\<lambda>r. strip [CHR 0x27] (get3 r)) ` set results \<and> distinct (keys t) \<and>
         (\<forall>r \<in> set results. \<forall>event. event = strip [CHR 0x27] (get3 r) \<longrightarrow>
            (\<exists>i j. get3 r = replicate i (CHR 0x27) @ event @ replicate j (CHR 0x27)) \<and>
            (event = [] \<or> hd event \<noteq> CHR 0x27 \<and> last event \<noteq> CHR 0x27))"
proof -
  have "exc_name_of ` set results = (\<lambda>r. strip [CHR 0x27] (get3 r)) ` set results"
    by (rule image_cong) (simp_all add: exc_name_of_def)
  with tally_results_keys [OF assms]
  have "set (keys t) = (\<lambda>r. strip [CHR 0x27] (get3 r)) ` set results \<and> distinct (keys t)"
    by (simp only:)
  moreover have "\<exists>i j. s = replicate i (CHR 0x27) @ strip [CHR 0x27] s @ replicate j (CHR 0x27)"
    for s by (rule strip_decomp)
  moreover have "strip [CHR 0x27] s = [] \<or>
      hd (strip [CHR 0x27] s) \<noteq> CHR 0x27 \<and> last (strip [CHR 0x27] s) \<noteq> CHR 0x27" for s
    by (rule strip_ends)
  ultimately show ?thesis by blast
qed

theorem tally_event_names_stripped_witness:
  "tally_results ''date'' ex =
     Inr (Some [(''MessagingTimeout'', [(''2022-02-04'', 2), (''2022-02-09'', 1)])]) \<and>
   set (keys [(''MessagingTimeout'', [(''2022-02-04'', 2), (''2022-02-09'', 1 :: int)])]) =
     (\<lambda>r. strip [CHR 0x27] (get3 r)) ` set ex \<and>
   strip [CHR 0x27] ([CHR 0x27] @ ''MessagingTimeout'' @ [CHR 0x27]) = ''MessagingTimeout''"
proof -
  have r: "tally_results ''date'' ex =
     Inr (Some [(''MessagingTimeout'', [(''2022-02-04'', 2), (''2022-02-09'', 1)])])"
    by code_simp
  have "strip [CHR 0x27] ([CHR 0x27] @ ''MessagingTimeout'' @ [CHR 0x27]) = ''MessagingTimeout''"
    by code_simp
  with tally_event_names_stripped [OF r] r show ?thesis by blast
qed

text \<open>
  C6. Whenever the tally with granularity \<open>time\<close> returns, so does the tally with
  granularity \<open>date\<close> on the same records, and it has no more buckets: neither counted
  event by event, nor as distinct key strings.
\<close>

theorem time_granularity_no_fewer_buckets:
  assumes "tally_results ''time'' results = Inr by_time"
  shows "\<exists>by_date. tally_results ''date'' results = Inr by_date \<and>
           n_buckets by_date \<le> n_buckets by_time \<and>
           card (distinct_bucket_keys by_date) \<le> card (distinct_bucket_keys by_time)"
proof (cases "results = []")
  case True
  with assms have "by_time = None" by (simp add: tally_results_def)
  moreover from True have "tally_results ''date'' results = Inr None"
    by (simp add: tally_results_def)
  ultimately show ?thesis by (simp add: n_buckets_def distinct_bucket_keys_def)
next
  case False
  let ?kt = "key_of ''time''" and ?kd = "key_of ''date''"
  have okt: "\<forall>r \<in> set results. bucket_key ''time'' r = Inr (?kt r)"
    by (rule tally_results_InrD [OF assms])
  have okd: "\<forall>r \<in> set results. bucket_key ''date'' r = Inr (?kd r)"
    by (simp add: key_of_date bucket_key_def)
  define tt where "tt = sorted_table (bump_all ?kt [] results)"
  define td where "td = sorted_table (bump_all ?kd [] results)"
  have rt: "tally_results ''time'' results = Inr (Some tt)"
    using tally_results_ok [OF okt] False by (simp add: tt_def)
  have rd: "tally_results ''date'' results = Inr (Some td)"
    using tally_results_ok [OF okd] False by (simp add: td_def)
  have bt: "by_time = Some tt" using assms rt by simp
  define ns where "ns = keys tt"
  have nd: "keys td = ns" unfolding ns_def by (rule tally_results_keys_indep [OF rd rt])
  have ct: "tt = map (\<lambda>n. (n, buckets_spec ?kt results n)) ns"
    unfolding ns_def by (rule tally_results_canon [OF rt])
  have cd: "td = map (\<lambda>n. (n, buckets_spec ?kd results n)) ns"
    unfolding nd [symmetric] by (rule tally_results_canon [OF rd])
  have sn: "set ns = exc_name_of ` set results"
    unfolding ns_def using tally_results_keys [OF rt] by simp
  have dp: "\<forall>r \<in> set results. date_part (?kt r) = ?kd r"
  proof
    fix r assume "r \<in> set results"
    with okt have "bucket_key ''time'' r = Inr (?kt r)" by simp
    then show "date_part (?kt r) = ?kd r" by (simp add: key_of_time key_of_date)
  qed
  have per: "card (?kd ` {r \<in> set results. exc_name_of r = n})
      \<le> card (?kt ` {r \<in> set results. exc_name_of r = n})" for n
  proof -
    have "?kd ` {r \<in> set results. exc_name_of r = n}
        = date_part ` (?kt ` {r \<in> set results. exc_name_of r = n})"
      using dp by (intro image_date_part) simp
    then show ?thesis by (simp add: card_image_le)
  qed
  have "length (bucket_keys td) \<le> length (bucket_keys tt)"
    unfolding ct cd length_bucket_keys_canon
    by (rule sum_list_mono) (rule per)
  moreover have "card (set (bucket_keys td)) \<le> card (set (bucket_keys tt))"
  proof -
    have "?kd ` set results = date_part ` (?kt ` set results)"
      using dp by (rule image_date_part)
    then have "card (?kd ` set results) \<le> card (?kt ` set results)"
      by (simp add: card_image_le)
    then show ?thesis
      unfolding ct cd set_bucket_keys_canon [OF sn] .
  qed
  ultimately show ?thesis
    using rd bt by (simp add: n_buckets_def distinct_bucket_keys_def)
qed

theorem time_granularity_no_fewer_buckets_witness:
  "tally_results ''time'' ex =
     Inr (Some [(''MessagingTimeout'',
       [(''2022-02-04_11:01'', 1), (''2022-02-04_11:07'', 1), (''2022-02-09_18:56'', 1)])]) \<and>
   tally_results ''date'' ex =
     Inr (Some [(''MessagingTimeout'', [(''2022-02-04'', 2), (''2022-02-09'', 1)])]) \<and>
   n_buckets (Some [(''MessagingTimeout'', [(''2022-02-04'', 2), (''2022-02-09'', 1)])])
     \<le> n_buckets (Some [(''MessagingTimeout'',
       [(''2022-02-04_11:01'', 1), (''2022-02-04_11:07'', 1), (''2022-02-09_18:56'', 1)])])"
proof -
  have t: "tally_results ''time'' ex =
     Inr (Some [(''MessagingTimeout'',
       [(''2022-02-04_11:01'', 1), (''2022-02-04_11:07'', 1), (''2022-02-09_18:56'', 1)])])"
    by code_simp
  have d: "tally_results ''date'' ex =
     Inr (Some [(''MessagingTimeout'', [(''2022-02-04'', 2), (''2022-02-09'', 1)])])"
    by code_simp
  from time_granularity_no_fewer_buckets [OF t] t d show ?thesis by simp
qed

text \<open>
  C7, as amended. With a granularity other than \<open>time\<close> the bucket key of a record is its
  date group. With granularity \<open>time\<close>, when the time group is made of ASCII characters,
  starts with digits, a colon and digits, and goes on with at least one character that is
  neither a digit nor a line feed, the key is the date group, an underscore and that
  leading \<open>HH:MM\<close>; what follows is ignored. In a returned table every record is counted
  under its event name and its bucket key (with granularity \<open>time\<close>: when the time groups
  are made of ASCII characters).
\<close>

theorem bucket_key_of_record:
  "(g \<noteq> ''time'' \<longrightarrow> bucket_key g r = Inr (get1 r)) \<and>
   (g = ''time'' \<and> get2 r = hh @ '':'' @ mm @ c # rest \<and> (\<forall>x \<in> set (get2 r). is_ascii x) \<and>
      hh \<noteq> [] \<and> (\<forall>x \<in> set hh. is_digit x) \<and> mm \<noteq> [] \<and> (\<forall>x \<in> set mm. is_digit x) \<and>
      \<not> is_digit c \<and> c \<noteq> CHR 0x0A
    \<longrightarrow> bucket_key g r = Inr (get1 r @ ''_'' @ hh @ '':'' @ mm)) \<and>
   (tally_results g results = Inr (Some t) \<and> r \<in> set results \<and>
      (g \<noteq> ''time'' \<or> (\<forall>x \<in> set results. \<forall>y \<in> set (get2 x). is_ascii y)) \<longrightarrow>
      (\<exists>key buckets n. bucket_key g r = Inr key \<and>
         (strip [CHR 0x27] (get3 r), buckets) \<in> set t \<and> (key, n) \<in> set buckets \<and> 0 < n))"
proof -
  have a: "bucket_key g r = Inr (get1 r)" if "g \<noteq> ''time''"
    using that by (simp add: bucket_key_def)
  have b: "bucket_key g r = Inr (get1 r @ ''_'' @ hh @ '':'' @ mm)"
    if "g = ''time''" "get2 r = hh @ '':'' @ mm @ c # rest"
      "hh \<noteq> []" "\<forall>x \<in> set hh. is_digit x" "mm \<noteq> []" "\<forall>x \<in> set mm. is_digit x"
      "\<not> is_digit c" "c \<noteq> CHR 0x0A"
  proof -
    have "search (get2 r) = Some (hh @ '':'' @ mm)"
      unfolding that(2) using that(4,3,6,5,7,8) by (rule search_prefix)
    then show ?thesis using that(1) by (simp add: bucket_key_def)
  qed
  have c: "\<exists>key buckets n. bucket_key g r = Inr key \<and>
         (strip [CHR 0x27] (get3 r), buckets) \<in> set t \<and> (key, n) \<in> set buckets \<and> 0 < n"
    if res: "tally_results g results = Inr (Some t)" and r: "r \<in> set results"
  proof -
    let ?n = "exc_name_of r" and ?k = "key_of g r"
    have k: "bucket_key g r = Inr ?k" using tally_results_InrD [OF res] r by simp
    have "?n \<in> exc_name_of ` set results" using r by simp
    from tally_results_entry_conv [OF res this]
    have e: "(?n, buckets_spec (key_of g) results ?n) \<in> set t" .
    have kin: "?k \<in> key_of g ` {x \<in> set results. exc_name_of x = ?n}" using r by simp
    then have "(?k, int (occ (key_of g) results ?n ?k)) \<in> set (buckets_spec (key_of g) results ?n)"
      by (simp add: buckets_spec_def image_iff)
    moreover have "0 < int (occ (key_of g) results ?n ?k)"
      using kin occ_pos_iff [of "key_of g" results ?n ?k] by simp
    ultimately show ?thesis using k e unfolding exc_name_of_def by blast
  qed
  from a b c show ?thesis by blast
qed

lemma ex_time_groups_ascii: "\<forall>x \<in> set ex. \<forall>y \<in> set (get2 x). is_ascii y"
  by (simp add: ex_def is_ascii_def)

theorem bucket_key_of_record_witness:
  "''date'' \<noteq> ''time'' \<and> bucket_key ''date'' (ex ! 2) = Inr ''2022-02-04'' \<and>
   get2 (ex ! 2) = ''11'' @ '':'' @ ''07'' @ CHR '':'' # ''59.002'' \<and>
   list_all is_ascii (get2 (ex ! 2)) \<and>
   list_all is_digit ''11'' \<and> list_all is_digit ''07'' \<and>
   \<not> is_digit CHR '':'' \<and> CHR '':'' \<noteq> CHR 0x0A \<and>
   bucket_key ''time'' (ex ! 2) = Inr ''2022-02-04_11:07'' \<and>
   tally_results ''time'' ex =
     Inr (Some [(''MessagingTimeout'',
       [(''2022-02-04_11:01'', 1), (''2022-02-04_11:07'', 1), (''2022-02-09_18:56'', 1)])]) \<and>
   ex ! 2 \<in> set ex \<and> list_all (\<lambda>x. list_all is_ascii (get2 x)) ex \<and>
   (\<exists>key buckets n. bucket_key ''time'' (ex ! 2) = Inr key \<and>
      (strip [CHR 0x27] (get3 (ex ! 2)), buckets) \<in> set [(''MessagingTimeout'',
       [(''2022-02-04_11:01'', 1 :: int), (''2022-02-04_11:07'', 1),
        (''2022-02-09_18:56'', 1)])] \<and>
      (key, n) \<in> set buckets \<and> 0 < n)"
proof -
  let ?t = "[(''MessagingTimeout'',
       [(''2022-02-04_11:01'', 1 :: int), (''2022-02-04_11:07'', 1), (''2022-02-09_18:56'', 1)])]"
  have h1: "''date'' \<noteq> ''time''" by simp
  have h2: "get2 (ex ! 2) = ''11'' @ '':'' @ ''07'' @ CHR '':'' # ''59.002''"
    by (simp add: ex_def)
  have h3: "(\<forall>x \<in> set ''11''. is_digit x) \<and> (\<forall>x \<in> set ''07''. is_digit x) \<and>
      \<not> is_digit CHR '':'' \<and> CHR '':'' \<noteq> CHR 0x0A"
    by (simp add: is_digit_def)
  have h4: "tally_results ''time'' ex = Inr (Some ?t)" by code_simp
  have h5: "ex ! 2 \<in> set ex" by (simp add: ex_def)
  have h6: "\<forall>x \<in> set (get2 (ex ! 2)). is_ascii x"
    using ex_time_groups_ascii h5 by blast
  have d: "bucket_key ''date'' (ex ! 2) = Inr ''2022-02-04''"
    using bucket_key_of_record [of "''date''" "ex ! 2"] h1 by (simp add: ex_def)
  have t: "bucket_key ''time'' (ex ! 2) = Inr ''2022-02-04_11:07''"
  proof -
    have "''time'' = ''time'' \<and> get2 (ex ! 2) = ''11'' @ '':'' @ ''07'' @ CHR '':'' # ''59.002'' \<and>
        (\<forall>x \<in> set (get2 (ex ! 2)). is_ascii x) \<and>
        ''11'' \<noteq> [] \<and> (\<forall>x \<in> set ''11''. is_digit x) \<and> ''07'' \<noteq> [] \<and>
        (\<forall>x \<in> set ''07''. is_digit x) \<and> \<not> is_digit CHR '':'' \<and> CHR '':'' \<noteq> CHR 0x0A"
      using h2 h3 h6 by simp
    then have "bucket_key ''time'' (ex ! 2)
        = Inr (get1 (ex ! 2) @ ''_'' @ ''11'' @ '':'' @ ''07'')"
      by (rule bucket_key_of_record [of "''time''" "ex ! 2" "''11''" "''07''" "CHR '':''"
            "''59.002''", THEN conjunct2, THEN conjunct1, THEN mp])
    then show ?thesis by (simp add: ex_def)
  qed
  have c: "\<exists>key buckets n. bucket_key ''time'' (ex ! 2) = Inr key \<and>
      (strip [CHR 0x27] (get3 (ex ! 2)), buckets) \<in> set ?t \<and> (key, n) \<in> set buckets \<and> 0 < n"
  proof -
    have "tally_results ''time'' ex = Inr (Some ?t) \<and> ex ! 2 \<in> set ex \<and>
        (''time'' \<noteq> ''time'' \<or> (\<forall>x \<in> set ex. \<forall>y \<in> set (get2 x). is_ascii y))"
      using h4 h5 ex_time_groups_ascii by blast
    then show ?thesis
      by (rule bucket_key_of_record [of "''time''" "ex ! 2" hh mm c rest ex ?t,
            THEN conjunct2, THEN conjunct2, THEN mp])
  qed
  have h7: "list_all (\<lambda>x. list_all is_ascii (get2 x)) ex"
    using ex_time_groups_ascii by (simp add: list_all_iff)
  note h3a = h3 [THEN conjunct1, folded list_all_iff]
    and h3b = h3 [THEN conjunct2, THEN conjunct1, folded list_all_iff]
    and h3c = h3 [THEN conjunct2, THEN conjunct2, THEN conjunct1]
    and h3d = h3 [THEN conjunct2, THEN conjunct2, THEN conjunct2]
    and h6a = h6 [folded list_all_iff]
  show ?thesis
    by (intro conjI) (fact h1 d h2 h6a h3a h3b h3c h3d t h4 h5 h7 c)+
qed

text \<open>
  Without a character after the minutes the key is another one: on a time group that is
  only \<open>HH:MM\<close> the pattern still wants one more character, so the last digit of the
  minutes is given back and the key is cut short.
\<close>

theorem bucket_key_time_counterexample:
  "bucket_key ''time'' \<lparr>get1 = ''2022-02-04'', get2 = ''12:34'', get3 = ''MessagingTimeout''\<rparr>
     = Inr ''2022-02-04_12:3'' \<and>
   bucket_key ''time'' \<lparr>get1 = ''2022-02-04'', get2 = ''12:34'', get3 = ''MessagingTimeout''\<rparr>
     \<noteq> Inr (''2022-02-04'' @ ''_'' @ ''12:34'') \<and>
   tally_results ''time''
     [\<lparr>get1 = ''2022-02-04'', get2 = ''12:34'', get3 = ''MessagingTimeout''\<rparr>]
     = Inr (Some [(''MessagingTimeout'', [(''2022-02-04_12:3'', 1)])])"
proof -
  have "bucket_key ''time'' \<lparr>get1 = ''2022-02-04'', get2 = ''12:34'', get3 = ''MessagingTimeout''\<rparr>
     = Inr ''2022-02-04_12:3''" by code_simp
  moreover have "tally_results ''time''
     [\<lparr>get1 = ''2022-02-04'', get2 = ''12:34'', get3 = ''MessagingTimeout''\<rparr>]
     = Inr (Some [(''MessagingTimeout'', [(''2022-02-04_12:3'', 1)])])" by code_simp
  ultimately show ?thesis by simp
qed

section \<open>The loops of process\_results\<close>

lemma events_loop_eq:
  "events_loop T S results section ai events =
     (if takeWhile (has_top T results) events = [] then ai
      else dict_set section
             (add_events T S results (case map_of ai section of None \<Rightarrow> [] | Some d \<Rightarrow> d)
                (takeWhile (has_top T results) events)) ai)"
proof (induction events arbitrary: ai)
  case Nil
  then show ?case by simp
next
  case (Cons event events)
  show ?case
  proof (cases "has_top T results event")
    case False
    then show ?thesis by (simp add: has_top_def)
  next
    case True
    let ?d0 = "case map_of ai section of None \<Rightarrow> [] | Some d \<Rightarrow> d"
    let ?ai' = "dict_set section (dict_set event (info_of T S results event) ?d0) ai"
    have step: "events_loop T S results section ai (event # events)
        = events_loop T S results section ?ai' events"
      using True
      by (cases "map_of ai section")
         (simp_all add: has_top_def info_of_def Let_def notin_keys_iff dict_set_def update_conv')
    have m: "map_of ?ai' section = Some (dict_set event (info_of T S results event) ?d0)"
      by (simp add: dict_set_def update_conv')
    show ?thesis
      unfolding step Cons.IH [of ?ai'] using True
      by (simp add: m add_events_def) (simp add: dict_set_def)
  qed
qed

lemma map_of_events_loop:
  "map_of (events_loop T S results section ai events) n =
     (if n = section \<and> takeWhile (has_top T results) events \<noteq> []
      then Some (add_events T S results (case map_of ai section of None \<Rightarrow> [] | Some d \<Rightarrow> d)
                (takeWhile (has_top T results) events))
      else map_of ai n)"
  by (simp add: events_loop_eq dict_set_def update_conv')

lemma map_of_sections_loop:
  "distinct (map fst defs) \<Longrightarrow>
   map_of (sections_loop T S results ai defs) n =
     (case map_of defs n of
        None \<Rightarrow> map_of ai n
      | Some events \<Rightarrow>
          if takeWhile (has_top T results) events = [] then map_of ai n
          else Some (add_events T S results (case map_of ai n of None \<Rightarrow> [] | Some d \<Rightarrow> d)
                       (takeWhile (has_top T results) events)))"
proof (induction defs arbitrary: ai)
  case Nil
  then show ?case by simp
next
  case (Cons p defs)
  obtain sec events where p: "p = (sec, events)" by (cases p)
  from Cons.prems p have d: "distinct (map fst defs)" and nin: "sec \<notin> fst ` set defs"
    by simp_all
  from nin have none: "map_of defs sec = None" by (simp add: map_of_eq_None_iff)
  show ?case
  proof (cases "n = sec")
    case True
    then show ?thesis
      unfolding p using Cons.IH [OF d] none by (simp add: map_of_events_loop)
  next
    case False
    then have e: "map_of (events_loop T S results sec ai events) n = map_of ai n"
      by (simp add: map_of_events_loop)
    have "map_of (sections_loop T S results ai (p # defs)) n
        = map_of (sections_loop T S results (events_loop T S results sec ai events) defs) n"
      unfolding p by simp
    also note Cons.IH [OF d, of "events_loop T S results sec ai events"]
    finally show ?thesis
      unfolding e p using False by simp
  qed
qed

lemma map_of_process_results:
  "distinct (map fst defs) \<Longrightarrow>
   map_of (process_results T S defs results) n =
     (case map_of defs n of
        None \<Rightarrow> None
      | Some events \<Rightarrow>
          if takeWhile (has_top T results) events = [] then None
          else Some (add_events T S results [] (takeWhile (has_top T results) events)))"
  by (simp add: process_results_def map_of_sections_loop split: option.splits)

lemma takeWhile_break:
  assumes "\<forall>x \<in> set pre. P x" and "\<not> P e"
  shows "takeWhile P (pre @ e # post) = pre"
  using assms by (simp add: takeWhile_append2)

lemma map_of_add_events:
  "map_of (add_events T S results d xs) x =
     (if x \<in> set xs then Some (info_of T S results x) else map_of d x)"
  unfolding add_events_def
  by (induction xs arbitrary: d) (simp_all add: dict_set_def update_conv')

lemma keys_add_events:
  "set (keys (add_events T S results d xs)) = set (keys d) \<union> set xs"
  unfolding add_events_def keys_def
  by (induction xs arbitrary: d) (auto simp add: dict_set_def dom_update)

lemma length_top_n: "length (top_n_events_sorted samples top_n) = min top_n (length samples)"
  by (simp add: top_n_events_sorted_def min.commute)

lemma event_stats_population:
  assumes "samples \<noteq> []"
  shows "\<exists>st. event_stats samples = Some st \<and> st_count st = length samples \<and>
           (\<forall>s \<in> set samples. st_min st \<le> duration s \<and> duration s \<le> st_max st)"
  using assms by (simp add: event_stats_def)

lemma demo_distinct: "distinct (map fst demo_definitions)" by (simp add: demo_definitions_def)

lemma demo_l3: "map_of demo_definitions ''neutron-l3-agent''
     = Some ([''router-spawn-events''] @ ''router-updates'' # [''router-deletes''])"
  by (simp add: demo_definitions_def)

lemma demo_spawn: "\<forall>x \<in> set [''router-spawn-events''].
    stats_top (\<lambda>r e i. r e) demo_samples x (custom_idxs x) 5 \<noteq> []"
  by (simp add: stats_top_def top_n_events_sorted_def demo_samples_def)

lemma demo_updates:
  "stats_top (\<lambda>r e i. r e) demo_samples ''router-updates'' (custom_idxs ''router-updates'') 5 = []"
  by (simp add: stats_top_def top_n_events_sorted_def demo_samples_def)

lemma demo_deletes:
  "stats_top (\<lambda>r e i. r e) demo_samples ''router-deletes'' (custom_idxs ''router-deletes'') 5 \<noteq> []"
  by (simp add: stats_top_def top_n_events_sorted_def demo_samples_def)

lemma demo_run:
  "map (\<lambda>(n, infos). (n, keys infos))
     (process_results (stats_top (\<lambda>r e i. r e)) (stats_summary_of (\<lambda>r e i. r e))
        demo_definitions demo_samples)
     = [(''neutron-l3-agent'', [''router-spawn-events'']), (''neutron-ovs-agent'', [''rpc-loop''])]"
  by code_simp

lemma demo_rpc_run:
  "map_of (process_results (stats_top (\<lambda>r e i. r e)) (stats_summary_of (\<lambda>r e i. r e))
      demo_definitions demo_samples) ''neutron-ovs-agent'' = Some [(''rpc-loop'', demo_rpc_info)]"
  by code_simp

lemma demo_rpc_length: "length (demo_samples ''rpc-loop'') = 7"
  by (simp add: demo_samples_def)

section \<open>What process\_results returns\<close>

text \<open>
  C10. The events of a section are processed in order. When one of them has an empty top
  list, the section ends there: the section's entry holds exactly the events before it
  (and there is no entry for the section when there are none), so that event and all the
  following ones have no entry, whether they have samples or not. The entry of any other
  section is what that section alone would give.
\<close>

theorem process_results_break:
  assumes "distinct (map fst event_definitions)"
    and "map_of event_definitions agent_name = Some (pre @ e # post)"
    and "\<forall>x \<in> set pre. T results x (custom_idxs x) 5 \<noteq> []"
    and "T results e (custom_idxs e) 5 = []"
  shows "(case map_of (process_results T S event_definitions results) agent_name of
            None \<Rightarrow> pre = []
          | Some infos \<Rightarrow> pre \<noteq> [] \<and> set (keys infos) = set pre \<and>
              (\<forall>x \<in> set pre. map_of infos x =
                 Some \<lparr>top = T results x (custom_idxs x) 5,
                       stats = S results x (custom_idxs x)\<rparr>)) \<and>
         (\<forall>other events. other \<noteq> agent_name \<and> map_of event_definitions other = Some events \<longrightarrow>
            map_of (process_results T S event_definitions results) other =
            map_of (process_results T S [(other, events)] results) other)"
proof -
  have tw: "takeWhile (has_top T results) (pre @ e # post) = pre"
    using assms(3,4) by (intro takeWhile_break) (simp_all add: has_top_def)
  have m: "map_of (process_results T S event_definitions results) agent_name =
      (if pre = [] then None else Some (add_events T S results [] pre))"
    using map_of_process_results [OF assms(1), of T S results agent_name]
    by (simp add: assms(2) tw)
  have a: "case map_of (process_results T S event_definitions results) agent_name of
            None \<Rightarrow> pre = []
          | Some infos \<Rightarrow> pre \<noteq> [] \<and> set (keys infos) = set pre \<and>
              (\<forall>x \<in> set pre. map_of infos x =
                 Some \<lparr>top = T results x (custom_idxs x) 5,
                       stats = S results x (custom_idxs x)\<rparr>)"
    unfolding m
    by (simp add: keys_add_events map_of_add_events info_of_def) (simp add: keys_def)
  have b: "map_of (process_results T S event_definitions results) other =
            map_of (process_results T S [(other, events)] results) other"
    if "map_of event_definitions other = Some events" for other events
    using map_of_process_results [OF assms(1), of T S results other]
      map_of_process_results [of "[(other, events)]" T S results other] that
    by simp
  from a b show ?thesis by blast
qed

theorem process_results_break_witness:
  "distinct (map fst demo_definitions) \<and>
   map_of demo_definitions ''neutron-l3-agent''
     = Some ([''router-spawn-events''] @ ''router-updates'' # [''router-deletes'']) \<and>
   stats_top (\<lambda>r e i. r e) demo_samples ''router-spawn-events''
     (custom_idxs ''router-spawn-events'') 5 \<noteq> [] \<and>
   stats_top (\<lambda>r e i. r e) demo_samples ''router-updates'' (custom_idxs ''router-updates'') 5 = [] \<and>
   stats_top (\<lambda>r e i. r e) demo_samples ''router-deletes'' (custom_idxs ''router-deletes'') 5 \<noteq> [] \<and>
   (\<exists>infos. map_of (process_results (stats_top (\<lambda>r e i. r e)) (stats_summary_of (\<lambda>r e i. r e))
        demo_definitions demo_samples) ''neutron-l3-agent'' = Some infos \<and>
      set (keys infos) = set [''router-spawn-events'']) \<and>
   map (\<lambda>(n, infos). (n, keys infos))
     (process_results (stats_top (\<lambda>r e i. r e)) (stats_summary_of (\<lambda>r e i. r e))
        demo_definitions demo_samples)
     = [(''neutron-l3-agent'', [''router-spawn-events'']), (''neutron-ovs-agent'', [''rpc-loop''])]"
proof -
  note c0 = process_results_break [where T = "stats_top (\<lambda>r e i. r e)"
      and S = "stats_summary_of (\<lambda>r e i. r e)" and results = demo_samples
      and event_definitions = demo_definitions and agent_name = "''neutron-l3-agent''"
      and pre = "[''router-spawn-events'']" and e = "''router-updates''"
      and post = "[''router-deletes'']",
      OF demo_distinct demo_l3 demo_spawn demo_updates, THEN conjunct1]
  have c: "\<exists>infos. map_of (process_results (stats_top (\<lambda>r e i. r e))
        (stats_summary_of (\<lambda>r e i. r e)) demo_definitions demo_samples)
        ''neutron-l3-agent'' = Some infos \<and> set (keys infos) = set [''router-spawn-events'']"
  proof (cases "map_of (process_results (stats_top (\<lambda>r e i. r e))
        (stats_summary_of (\<lambda>r e i. r e)) demo_definitions demo_samples) ''neutron-l3-agent''")
    case None
    with c0 show ?thesis by simp
  next
    case (Some infos)
    with c0 have "set (keys infos) = set [''router-spawn-events'']" by simp
    with Some show ?thesis by blast
  qed
  show ?thesis
    by (intro conjI)
       (fact demo_distinct demo_l3 demo_spawn [simplified] demo_updates demo_deletes demo_run c)+
qed

text \<open>
  C5. The top list has \<open>min top_n n\<close> entries for \<open>n\<close> samples, while the summary is
  computed from all the samples: its count is \<open>n\<close>, and its minimum and maximum bound
  the duration of every sample, in the top list or not. In the output of
  \<open>process_results\<close>, which asks for the top five, the summary stored for an event counts
  all the samples of that event.
\<close>

theorem stats_cover_whole_population:
  "length (top_n_events_sorted samples top_n) = min top_n (length samples) \<and>
   (samples \<noteq> [] \<longrightarrow>
      (\<exists>st. event_stats samples = Some st \<and> st_count st = length samples \<and>
         (\<forall>s \<in> set samples. st_min st \<le> duration s \<and> duration s \<le> st_max st))) \<and>
   (distinct (map fst event_definitions) \<and>
    map_of (process_results (stats_top samples_of) (stats_summary_of samples_of)
              event_definitions results) agent_name = Some infos \<and>
    map_of infos event = Some info \<longrightarrow>
      (\<exists>st. stats info = Some st \<and>
         st_count st = length (samples_of results event (custom_idxs event))) \<and>
      length (top info) = min 5 (length (samples_of results event (custom_idxs event))))"
proof -
  let ?T = "stats_top samples_of" and ?S = "stats_summary_of samples_of"
  have c: "(\<exists>st. stats info = Some st \<and>
         st_count st = length (samples_of results event (custom_idxs event))) \<and>
      length (top info) = min 5 (length (samples_of results event (custom_idxs event)))"
    if d: "distinct (map fst event_definitions)"
      and m: "map_of (process_results ?T ?S event_definitions results) agent_name = Some infos"
      and i: "map_of infos event = Some info"
  proof -
    from m map_of_process_results [OF d, of ?T ?S results agent_name]
    obtain events where
      infos: "infos = add_events ?T ?S results [] (takeWhile (has_top ?T results) events)"
      by (auto split: option.splits if_splits)
    from i have ev: "event \<in> set (takeWhile (has_top ?T results) events)"
      and info: "info = info_of ?T ?S results event"
      unfolding infos map_of_add_events by (simp_all split: if_splits)
    from ev have "has_top ?T results event" by (rule set_takeWhileD [THEN conjunct2])
    then have ne: "samples_of results event (custom_idxs event) \<noteq> []"
      by (auto simp add: has_top_def stats_top_def top_n_events_sorted_def)
    show ?thesis
      unfolding info using ne
      by (simp add: info_of_def stats_top_def stats_summary_of_def length_top_n event_stats_def)
  qed
  from length_top_n [of samples top_n] event_stats_population [of samples] c
  show ?thesis by blast
qed

theorem stats_cover_whole_population_witness:
  "demo_samples ''rpc-loop'' \<noteq> [] \<and> length (demo_samples ''rpc-loop'') = 7 \<and>
   length (top_n_events_sorted (demo_samples ''rpc-loop'') 5) = 5 \<and>
   (\<exists>st. event_stats (demo_samples ''rpc-loop'') = Some st \<and> st_count st = 7) \<and>
   distinct (map fst demo_definitions) \<and>
   map_of (process_results (stats_top (\<lambda>r e i. r e)) (stats_summary_of (\<lambda>r e i. r e))
      demo_definitions demo_samples) ''neutron-ovs-agent'' = Some [(''rpc-loop'', demo_rpc_info)] \<and>
   map_of [(''rpc-loop'', demo_rpc_info)] ''rpc-loop'' = Some demo_rpc_info \<and>
   (\<exists>st. stats demo_rpc_info = Some st \<and> st_count st = 7) \<and>
   length (top demo_rpc_info) = 5"
proof -
  note t = stats_cover_whole_population [where samples = "demo_samples ''rpc-loop''"
      and top_n = 5 and samples_of = "\<lambda>r e i. r e" and results = demo_samples
      and event_definitions = demo_definitions and agent_name = "''neutron-ovs-agent''"
      and infos = "[(''rpc-loop'', demo_rpc_info)]" and event = "''rpc-loop''"
      and info = demo_rpc_info]
  have ne: "demo_samples ''rpc-loop'' \<noteq> []" using demo_rpc_length by auto
  have m: "map_of [(''rpc-loop'', demo_rpc_info)] ''rpc-loop'' = Some demo_rpc_info" by simp
  have a: "length (top_n_events_sorted (demo_samples ''rpc-loop'') 5) = 5"
    using t [THEN conjunct1] by (simp add: demo_rpc_length)
  have b: "\<exists>st. event_stats (demo_samples ''rpc-loop'') = Some st \<and> st_count st = 7"
    using t [THEN conjunct2, THEN conjunct1, rule_format, OF ne] demo_rpc_length by auto
  have "distinct (map fst demo_definitions) \<and>
      map_of (process_results (stats_top (\<lambda>r e i. r e)) (stats_summary_of (\<lambda>r e i. r e))
        demo_definitions demo_samples) ''neutron-ovs-agent'' = Some [(''rpc-loop'', demo_rpc_info)] \<and>
      map_of [(''rpc-loop'', demo_rpc_info)] ''rpc-loop'' = Some demo_rpc_info"
    by (intro conjI) (fact demo_distinct demo_rpc_run m)+
  from t [THEN conjunct2, THEN conjunct2, rule_format, OF this]
  have c: "(\<exists>st. stats demo_rpc_info = Some st \<and> st_count st = 7) \<and>
      length (top demo_rpc_info) = 5"
    by (simp add: demo_rpc_length)
  show ?thesis
    by (intro conjI) (fact ne demo_rpc_length a b demo_distinct demo_rpc_run m
        c [THEN conjunct1] c [THEN conjunct2])+
qed

section \<open>The cache of run\<close>

lemma run_hit:
  assumes "cache_get (cache s) ''agent_exceptions'' = Some payload" and "payload \<noteq> []"
  shows "run g ost_projects find_by_tag s = (Inr payload, s)"
  using assms by (simp add: run_def)

lemma run_stores:
  assumes "run g ost_projects find_by_tag s = (Inr payload, s')"
  shows "cache_get (cache s') ''agent_exceptions'' = Some payload \<or>
         (payload = [] \<and> s' = s)"
  using assms
  by (auto simp add: run_def Let_def cache_get_def cache_set_def update_conv'
      split: option.splits if_splits sum.splits)

lemma run_computations:
  "computations (snd (run g ost_projects find_by_tag s)) \<le> computations s + 1"
  by (auto simp add: run_def Let_def split: option.splits if_splits sum.splits)

lemma demo_run_first:
  "run ''date'' demo_projects demo_find_by_tag \<lparr>cache = [], computations = 0\<rparr>
   = (Inr demo_payload, \<lparr>cache = [(''agent_exceptions'', demo_payload)], computations = 1\<rparr>)"
  by code_simp

text \<open>
  C2, as amended. When the cache holds a non-empty payload under \<open>agent_exceptions\<close>,
  \<open>run\<close> returns it and leaves the state as it is: nothing is computed. Hence, once a call
  of \<open>run\<close> has returned a non-empty result, every later call on the state it left,
  whatever its other arguments, returns that result without computing. A payload that
  was set is what \<open>get\<close> returns.
\<close>

theorem run_returns_cached_payload:
  "(cache_get (cache s) ''agent_exceptions'' = Some payload \<and> payload \<noteq> [] \<longrightarrow>
      run g ost_projects find_by_tag s = (Inr payload, s)) \<and>
   (run g ost_projects find_by_tag s = (Inr payload, s') \<and> payload \<noteq> [] \<longrightarrow>
      run g' ost_projects' find_by_tag' s' = (Inr payload, s') \<and>
      computations s' \<le> computations s + 1) \<and>
   cache_get (cache_set c key p) key = Some p"
proof -
  have a: "run g ost_projects find_by_tag s = (Inr payload, s)"
    if "cache_get (cache s) ''agent_exceptions'' = Some payload" "payload \<noteq> []"
    using that by (rule run_hit)
  have b: "run g' ost_projects' find_by_tag' s' = (Inr payload, s') \<and>
      computations s' \<le> computations s + 1"
    if r: "run g ost_projects find_by_tag s = (Inr payload, s')" and ne: "payload \<noteq> []"
  proof -
    from run_stores [OF r] ne
    have "cache_get (cache s') ''agent_exceptions'' = Some payload" by simp
    then have "run g' ost_projects' find_by_tag' s' = (Inr payload, s')"
      using ne by (rule run_hit)
    moreover have "computations s' \<le> computations s + 1"
      using run_computations [of g ost_projects find_by_tag s] r by simp
    ultimately show ?thesis by simp
  qed
  have c: "cache_get (cache_set c key p) key = Some p"
    by (simp add: cache_get_def cache_set_def update_conv')
  from a b c show ?thesis by blast
qed

theorem run_returns_cached_payload_witness:
  "run ''date'' demo_projects demo_find_by_tag \<lparr>cache = [], computations = 0\<rparr>
     = (Inr demo_payload, \<lparr>cache = [(''agent_exceptions'', demo_payload)], computations = 1\<rparr>) \<and>
   demo_payload \<noteq> [] \<and>
   run ''time'' [] demo_no_hits \<lparr>cache = [(''agent_exceptions'', demo_payload)], computations = 1\<rparr>
     = (Inr demo_payload, \<lparr>cache = [(''agent_exceptions'', demo_payload)], computations = 1\<rparr>)"
proof -
  have ne: "demo_payload \<noteq> []" by (simp add: demo_payload_def)
  note t = run_returns_cached_payload [where g = "''date''" and ost_projects = demo_projects
      and find_by_tag = demo_find_by_tag and s = "\<lparr>cache = [], computations = 0\<rparr>"
      and payload = demo_payload
      and s' = "\<lparr>cache = [(''agent_exceptions'', demo_payload)], computations = 1\<rparr>"
      and g' = "''time''" and ost_projects' = "[]" and find_by_tag' = demo_no_hits,
      THEN conjunct2, THEN conjunct1, rule_format, OF conjI [OF demo_run_first ne],
      THEN conjunct1]
  show ?thesis
    by (intro conjI) (fact demo_run_first ne t)+
qed

text \<open>
  An empty result is not kept that way. When the aggregation finds nothing, the empty
  result is stored, the next call reads it, takes it for a miss and computes again.
\<close>

theorem run_recomputes_counterexample:
  "run ''date'' demo_projects demo_no_hits \<lparr>cache = [], computations = 0\<rparr>
     = (Inr [], \<lparr>cache = [(''agent_exceptions'', [])], computations = 1\<rparr>) \<and>
   cache_get [(''agent_exceptions'', [] :: agent_exceptions)] ''agent_exceptions'' = Some [] \<and>
   run ''date'' demo_projects demo_no_hits
       \<lparr>cache = [(''agent_exceptions'', [])], computations = 1\<rparr>
     = (Inr [], \<lparr>cache = [(''agent_exceptions'', [])], computations = 2\<rparr>)"
proof -
  have "run ''date'' demo_projects demo_no_hits \<lparr>cache = [], computations = 0\<rparr>
     = (Inr [], \<lparr>cache = [(''agent_exceptions'', [])], computations = 1\<rparr>)"
    by code_simp
  moreover have "run ''date'' demo_projects demo_no_hits
       \<lparr>cache = [(''agent_exceptions'', [])], computations = 1\<rparr>
     = (Inr [], \<lparr>cache = [(''agent_exceptions'', [])], computations = 2\<rparr>)"
    by code_simp
  moreover have "cache_get [(''agent_exceptions'', [] :: agent_exceptions)] ''agent_exceptions''
      = Some []"
    by (simp add: cache_get_def)
  ultimately show ?thesis by simp
qed

end
